theory Spec2Isabelle
  imports Complex_Main "HOL-Library.Log_Nat"
begin

section \<open>The knapsack module (\<open>knapsack.pyx\<close>)\<close>

text \<open>
  The module has two functions: the typed core \<open>_knapsack\<close> (a \<open>cdef\<close>, here
  \<open>cdef_knapsack\<close>, since an Isabelle name cannot start with an underscore) and the
  Python-level wrapper \<open>knapsack\<close>, which marshals its arguments into typed buffers.

  Conventions of the embedding:

  \<^item> The item values handed to \<open>knapsack\<close> are finite real numbers (Python floats).
    Inside the module a value is a floating-point number \<open>fp\<close>: finite, an infinity
    or not-a-number. \<open>array.array('f', ...)\<close> rounds each value to single precision,
    the table and the sums are in double precision. The two zeros of IEEE 754 are not
    told apart.
  \<^item> A C \<open>int\<close> is an \<open>int\<close> with the 32-bit two's-complement wrap-around written
    out (\<open>c_int\<close>) where the code computes with it.
  \<^item> The exceptions the run-time raises on these lines for sequences of numbers are
    the values of \<open>error\<close>; a function that can raise returns \<open>error + 'a\<close>, with
    \<open>Inl\<close> the exception. Failure of the table allocation for lack of memory is not
    modelled.
\<close>

datatype error = OverflowError | ValueError | IndexError

subsection \<open>C integers\<close>

definition c_int :: "int \<Rightarrow> int" where
  "c_int x = (x + 2 ^ 31) mod 2 ^ 32 - 2 ^ 31"

definition fits_c_int :: "int \<Rightarrow> bool" where
  "fits_c_int x \<longleftrightarrow> - (2 ^ 31) \<le> x \<and> x < 2 ^ 31"

subsection \<open>Checked indexing\<close>

text \<open>
  Indexing a typed memoryview or a NumPy array checks the bounds (Cython's default
  \<open>boundscheck=True\<close>, \<open>wraparound=True\<close>): a negative index counts from the end, and
  an index outside the buffer raises \<open>IndexError\<close>.
\<close>

definition index_of :: "nat \<Rightarrow> int \<Rightarrow> error + nat" where
  "index_of n k =
     (if 0 \<le> k \<and> k < int n then Inr (nat k)
      else if k < 0 \<and> 0 \<le> k + int n then Inr (nat (k + int n))
      else Inl IndexError)"

definition getitem :: "'a list \<Rightarrow> int \<Rightarrow> error + 'a" where
  "getitem xs k = (case index_of (length xs) k of Inl e \<Rightarrow> Inl e | Inr p \<Rightarrow> Inr (xs ! p))"

definition setitem :: "'a list \<Rightarrow> int \<Rightarrow> 'a \<Rightarrow> error + 'a list" where
  "setitem xs k v = (case index_of (length xs) k of Inl e \<Rightarrow> Inl e | Inr p \<Rightarrow> Inr (xs[p := v]))"

text \<open>\<open>dp_array[i][j]\<close>: the row is fetched first, then the column within it.\<close>

definition getitem2 :: "'a list list \<Rightarrow> int \<Rightarrow> int \<Rightarrow> error + 'a" where
  "getitem2 a i j = (case getitem a i of Inl e \<Rightarrow> Inl e | Inr row \<Rightarrow> getitem row j)"

text \<open>\<open>dp_array[i][j] = v\<close>: the row fetched is a view, so the write lands in the table.\<close>

definition setitem2 :: "'a list list \<Rightarrow> int \<Rightarrow> int \<Rightarrow> 'a \<Rightarrow> error + 'a list list" where
  "setitem2 a i j v =
     (case getitem a i of Inl e \<Rightarrow> Inl e
      | Inr row \<Rightarrow> (case setitem row j v of Inl e \<Rightarrow> Inl e | Inr row' \<Rightarrow> setitem a i row'))"

subsection \<open>Floating-point numbers\<close>

text \<open>
  A C \<open>float\<close> or \<open>double\<close>: a finite number, an infinity or not-a-number. Every
  single-precision number is also a double-precision number, so one type serves for
  both; the precision is in the rounding.
\<close>

datatype fp = Finite real | PInf | NInf | NaN

text \<open>\<open>ilog2 x\<close> is the binary exponent of a positive \<open>x\<close>: \<open>2^e \<le> x < 2^(e+1)\<close>.\<close>

definition ilog2 :: "real \<Rightarrow> int" where
  "ilog2 x = (if 1 \<le> x then bitlen \<lfloor>x\<rfloor> - 1 else - bitlen (\<lceil>1 / x\<rceil> - 1))"

text \<open>Rounding to the nearest integer, a tie going to the even one.\<close>

definition round_half_even :: "real \<Rightarrow> int" where
  "round_half_even x =
     (let f = \<lfloor>x\<rfloor>; d = x - of_int f
      in if d < 1 / 2 then f else if 1 / 2 < d then f + 1 else if even f then f else f + 1)"

text \<open>
  Rounding to nearest-even in a binary format with \<open>p\<close> significant bits and least
  normal exponent \<open>emin\<close>: the spacing of the representable numbers around \<open>x\<close>
  (below \<open>2^emin\<close> it stays that of the subnormal numbers), the rounded value, and
  the overflow to an infinity above the largest exponent \<open>emax\<close>.
\<close>

definition quantum :: "nat \<Rightarrow> int \<Rightarrow> real \<Rightarrow> real" where
  "quantum p emin x = 2 powi (max (ilog2 \<bar>x\<bar>) emin - int p + 1)"

definition round_real :: "nat \<Rightarrow> int \<Rightarrow> real \<Rightarrow> real" where
  "round_real p emin x =
     (if x = 0 then 0
      else of_int (round_half_even (x / quantum p emin x)) * quantum p emin x)"

definition round_fp :: "nat \<Rightarrow> int \<Rightarrow> int \<Rightarrow> real \<Rightarrow> fp" where
  "round_fp p emin emax x =
     (let r = round_real p emin x
      in if 2 powi (emax + 1) \<le> \<bar>r\<bar> then (if 0 < r then PInf else NInf) else Finite r)"

text \<open>The conversion to \<open>float\<close> and the rounding of a \<open>double\<close> result.\<close>

definition to_single :: "real \<Rightarrow> fp" where
  "to_single x = round_fp 24 (- 126) 127 x"

definition to_double :: "real \<Rightarrow> fp" where
  "to_double x = round_fp 53 (- 1022) 1023 x"

text \<open>The addition of two doubles.\<close>

fun double_add :: "fp \<Rightarrow> fp \<Rightarrow> fp" where
  "double_add NaN b = NaN"
| "double_add a NaN = NaN"
| "double_add PInf NInf = NaN"
| "double_add NInf PInf = NaN"
| "double_add PInf b = PInf"
| "double_add a PInf = PInf"
| "double_add NInf b = NInf"
| "double_add a NInf = NInf"
| "double_add (Finite x) (Finite y) = to_double (x + y)"

text \<open>The comparison \<open>a <= b\<close> of two doubles; it is false when either is not-a-number.\<close>

fun fp_le :: "fp \<Rightarrow> fp \<Rightarrow> bool" where
  "fp_le NaN b = False"
| "fp_le a NaN = False"
| "fp_le NInf b = True"
| "fp_le a PInf = True"
| "fp_le (Finite x) (Finite y) = (x \<le> y)"
| "fp_le PInf b = False"
| "fp_le (Finite x) NInf = False"

text \<open>
  \<open>0\<close>, \<open>+\<close>, \<open>\<le>\<close> and \<open><\<close> on \<open>fp\<close> are the machine's: zero, the double
  addition and the two comparisons.
\<close>

instantiation fp :: "{zero, plus, ord}"
begin

definition zero_fp :: fp where
  "zero_fp = Finite 0"

definition plus_fp :: "fp \<Rightarrow> fp \<Rightarrow> fp" where
  "plus_fp a b = double_add a b"

definition less_eq_fp :: "fp \<Rightarrow> fp \<Rightarrow> bool" where
  "less_eq_fp a b \<longleftrightarrow> fp_le a b"

definition less_fp :: "fp \<Rightarrow> fp \<Rightarrow> bool" where
  "less_fp a b \<longleftrightarrow> fp_le a b \<and> \<not> fp_le b a"

instance ..

end

subsection \<open>The core \<open>_knapsack\<close>\<close>

text \<open>
  \<open>np.zeros((rows, cols))\<close> refuses a negative dimension; the table it makes holds
  doubles.
\<close>

definition np_zeros :: "int \<Rightarrow> int \<Rightarrow> error + fp list list" where
  "np_zeros rows cols =
     (if rows < 0 \<or> cols < 0 then Inl ValueError
      else Inr (replicate (nat rows) (replicate (nat cols) 0)))"

text \<open>Cython compiles the two-argument \<open>max(a, b)\<close> to \<open>b if b > a else a\<close>.\<close>

definition pymax :: "fp \<Rightarrow> fp \<Rightarrow> fp" where
  "pymax a b = (if b > a then b else a)"

text \<open>
  Lines 21 to 26, one pass of the inner loop body at row \<open>i\<close>, column \<open>j\<close>.
  The counters satisfy \<open>1 \<le> i < rows\<close> and \<open>1 \<le> j < cols\<close>, so \<open>i - 1\<close> does not
  wrap; \<open>j - weight\<close> is a C subtraction and is wrapped. \<open>value\<close> is a \<open>double\<close>:
  the \<open>float\<close> read from the buffer widens to it unchanged, and \<open>value + ...\<close> is
  the double addition.
\<close>

definition loop_body ::
  "fp list \<Rightarrow> int list \<Rightarrow> nat \<Rightarrow> nat \<Rightarrow> fp list list \<Rightarrow> error + fp list list" where
  "loop_body values weights i j dp_array =
     (case getitem weights (int i - 1) of Inl e \<Rightarrow> Inl e
      | Inr weight \<Rightarrow>
          if c_int (int j - weight) \<ge> 0 then
            (case getitem values (int i - 1) of Inl e \<Rightarrow> Inl e
             | Inr value \<Rightarrow>
                 (case getitem2 dp_array (int i - 1) (int j) of Inl e \<Rightarrow> Inl e
                  | Inr excl \<Rightarrow>
                      (case getitem2 dp_array (int i - 1) (c_int (int j - weight)) of
                         Inl e \<Rightarrow> Inl e
                       | Inr rest \<Rightarrow>
                           setitem2 dp_array (int i) (int j) (pymax excl (value + rest)))))
          else
            (case getitem2 dp_array (int i - 1) (int j) of Inl e \<Rightarrow> Inl e
             | Inr excl \<Rightarrow> setitem2 dp_array (int i) (int j) excl))"

text \<open>\<open>for j in range(1, cols)\<close>, entered with \<open>j = 1\<close>.\<close>

function inner_loop ::
  "fp list \<Rightarrow> int list \<Rightarrow> nat \<Rightarrow> nat \<Rightarrow> nat \<Rightarrow> fp list list \<Rightarrow> error + fp list list" where
  "inner_loop values weights cols i j dp_array =
     (if j < cols then
        (case loop_body values weights i j dp_array of
           Inl e \<Rightarrow> Inl e
         | Inr dp' \<Rightarrow> inner_loop values weights cols i (j + 1) dp')
      else Inr dp_array)"
  by pat_completeness auto
termination
  by (relation "measure (\<lambda>(values, weights, cols, i, j, dp_array). cols - j)") auto

text \<open>\<open>for i in range(1, rows)\<close>, entered with \<open>i = 1\<close>.\<close>

function outer_loop ::
  "fp list \<Rightarrow> int list \<Rightarrow> nat \<Rightarrow> nat \<Rightarrow> nat \<Rightarrow> fp list list \<Rightarrow> error + fp list list" where
  "outer_loop values weights rows cols i dp_array =
     (if i < rows then
        (case inner_loop values weights cols i 1 dp_array of
           Inl e \<Rightarrow> Inl e
         | Inr dp' \<Rightarrow> outer_loop values weights rows cols (i + 1) dp')
      else Inr dp_array)"
  by pat_completeness auto
termination
  by (relation "measure (\<lambda>(values, weights, rows, cols, i, dp_array). rows - i)") auto

text \<open>
  Lines 8 to 26: the table as it stands when the loops have finished.
  \<open>len(weights) + 1\<close> is narrowed to a C \<open>int\<close>, and \<open>max_weight + 1\<close> is a C addition.
\<close>

definition dp_table :: "fp list \<Rightarrow> int list \<Rightarrow> int \<Rightarrow> error + fp list list" where
  "dp_table values weights max_weight =
     (let rows = c_int (int (length weights) + 1);
          cols = c_int (max_weight + 1)
      in case np_zeros rows cols of Inl e \<Rightarrow> Inl e
         | Inr dp_array \<Rightarrow> outer_loop values weights (nat rows) (nat cols) 1 dp_array)"

text \<open>Line 29: \<open>return dp_array[rows - 1][cols - 1]\<close>.\<close>

definition cdef_knapsack :: "fp list \<Rightarrow> int list \<Rightarrow> int \<Rightarrow> error + fp" where
  "cdef_knapsack values weights max_weight =
     (let rows = c_int (int (length weights) + 1);
          cols = c_int (max_weight + 1)
      in case dp_table values weights max_weight of Inl e \<Rightarrow> Inl e
         | Inr dp_array \<Rightarrow> getitem2 dp_array (rows - 1) (cols - 1))"

subsection \<open>The wrapper \<open>knapsack\<close>\<close>

text \<open>
  \<open>array.array('f', values)\<close>: every Python float converts, rounded to single
  precision (to an infinity when it is too large); the buffer has as many entries as
  the sequence.
\<close>

definition array_f :: "real list \<Rightarrow> error + fp list" where
  "array_f values = Inr (map to_single values)"

text \<open>\<open>array.array('i', weights)\<close>: an integer outside the C \<open>int\<close> range is refused.\<close>

definition array_i :: "int list \<Rightarrow> error + int list" where
  "array_i weights = (if list_all fits_c_int weights then Inr weights else Inl OverflowError)"

text \<open>Lines 41 to 43. \<open>max_weight\<close> is converted to a C \<open>int\<close> at the call.\<close>

definition knapsack :: "real list \<Rightarrow> int list \<Rightarrow> int \<Rightarrow> error + fp" where
  "knapsack values weights max_weight =
     (case array_f values of Inl e \<Rightarrow> Inl e
      | Inr v \<Rightarrow>
          (case array_i weights of Inl e \<Rightarrow> Inl e
           | Inr w \<Rightarrow>
               if fits_c_int max_weight then cdef_knapsack v w max_weight
               else Inl OverflowError))"

section \<open>Auxiliary notions for the verification\<close>

text \<open>
  The inputs on which the C arithmetic of the core does not wrap: every weight, the
  column count \<open>max_weight + 1\<close> and the row count \<open>len(weights) + 1\<close> are
  below \<open>2^31\<close>.
\<close>

definition representable :: "int list \<Rightarrow> int \<Rightarrow> bool" where
  "representable weights max_weight \<longleftrightarrow>
     (\<forall>w\<in>set weights. w < 2 ^ 31) \<and> max_weight + 1 < 2 ^ 31 \<and>
     int (length weights) + 1 < 2 ^ 31"

declare inner_loop.simps [simp del] outer_loop.simps [simp del]

text \<open>
  The entry the loops leave at row \<open>i\<close>, column \<open>j\<close>, as a function: row 0 is zero,
  column 0 is never written (both loops start at 1) and stays zero, and every other
  entry follows lines 22 to 26.
\<close>

fun cell :: "fp list \<Rightarrow> int list \<Rightarrow> nat \<Rightarrow> nat \<Rightarrow> fp" where
  "cell vs ws 0 j = 0"
| "cell vs ws (Suc i) j =
     (if j = 0 then 0
      else if ws ! i \<le> int j
           then max (cell vs ws i j) (vs ! i + cell vs ws i (j - nat (ws ! i)))
           else cell vs ws i j)"

text \<open>The table with \<open>n + 1\<close> rows and \<open>c + 1\<close> columns holding these entries.\<close>

definition table_of :: "fp list \<Rightarrow> int list \<Rightarrow> nat \<Rightarrow> nat \<Rightarrow> fp list list" where
  "table_of vs ws n c = map (\<lambda>r. map (cell vs ws r) [0..<Suc c]) [0..<Suc n]"

text \<open>
  Loop invariant: the table has \<open>R\<close> rows of \<open>C\<close> columns; the rows before \<open>i\<close> and
  the columns before \<open>j\<close> of row \<open>i\<close> hold their final entries, the rest is still zero.
\<close>

definition filled ::
  "fp list \<Rightarrow> int list \<Rightarrow> nat \<Rightarrow> nat \<Rightarrow> nat \<Rightarrow> nat \<Rightarrow> fp list list \<Rightarrow> bool" where
  "filled vs ws R C i j dp \<longleftrightarrow>
     length dp = R \<and>
     (\<forall>r<R. length (dp ! r) = C \<and>
        (\<forall>c<C. dp ! r ! c = (if r < i \<or> (r = i \<and> c < j) then cell vs ws r c else 0)))"

text \<open>
  The same recurrence in exact arithmetic on the values as given, to compare the
  table with.
\<close>

fun exact_cell :: "real list \<Rightarrow> int list \<Rightarrow> nat \<Rightarrow> nat \<Rightarrow> real" where
  "exact_cell vs ws 0 j = 0"
| "exact_cell vs ws (Suc i) j =
     (if j = 0 then 0
      else if ws ! i \<le> int j
           then max (exact_cell vs ws i j) (vs ! i + exact_cell vs ws i (j - nat (ws ! i)))
           else exact_cell vs ws i j)"

section \<open>The optimum, as the specification words it\<close>

text \<open>
  Following the specification (section 4.2): the maximum of the total value over every
  subset of item indices whose total weight is at most the capacity. A subset is a set
  of indices below \<open>len(weights)\<close>, so each index is used at most once.
\<close>

definition total :: "'a::comm_monoid_add list \<Rightarrow> nat set \<Rightarrow> 'a" where
  "total xs S = (\<Sum>k\<in>S. xs ! k)"

definition feasible :: "int list \<Rightarrow> int \<Rightarrow> nat set set" where
  "feasible weights capacity = {S \<in> Pow {..<length weights}. total weights S \<le> capacity}"

definition best_value :: "real list \<Rightarrow> int list \<Rightarrow> int \<Rightarrow> real" where
  "best_value values weights capacity = Max (total values ` feasible weights capacity)"

text \<open>
  Following the specification's recurrence at one cell: if \<open>weight[i-1] > j\<close> the entry
  is carried forward from the row above, otherwise it is the better of excluding and
  including item \<open>i - 1\<close>. The values are those of the marshaled buffer; \<open>max\<close> and
  \<open>+\<close> are the machine's.
\<close>

definition recurrence_at :: "fp list \<Rightarrow> int list \<Rightarrow> fp list list \<Rightarrow> nat \<Rightarrow> nat \<Rightarrow> bool" where
  "recurrence_at values weights table i j \<longleftrightarrow>
     (if weights ! (i - 1) > int j then table ! i ! j = table ! (i - 1) ! j
      else table ! i ! j =
             max (table ! (i - 1) ! j)
                 (values ! (i - 1) + table ! (i - 1) ! (j - nat (weights ! (i - 1)))))"

text \<open>An index that lies within a buffer of \<open>n\<close> entries, without wrap-around.\<close>

definition in_bounds :: "nat \<Rightarrow> int \<Rightarrow> bool" where
  "in_bounds n k \<longleftrightarrow> 0 \<le> k \<and> k < int n"

text \<open>
  A single-precision number: an integer of fewer than 24 bits times a power of two not
  below the least subnormal, within the range of the format.
\<close>

definition single_precision :: "real \<Rightarrow> bool" where
  "single_precision x \<longleftrightarrow>
     (\<exists>m k. \<bar>m\<bar> < 2 ^ 24 \<and> - 149 \<le> k \<and> x = of_int m * 2 powi k) \<and> \<bar>x\<bar> < 2 powi 128"

section \<open>Rounding\<close>

lemma rhe_floor_le: "\<lfloor>x\<rfloor> \<le> round_half_even x"
  by (simp add: round_half_even_def Let_def)

lemma rhe_le_floor: "round_half_even x \<le> \<lfloor>x\<rfloor> + 1"
  by (simp add: round_half_even_def Let_def)

lemma rhe_of_int: "round_half_even (of_int n) = n"
  by (simp add: round_half_even_def)

lemma rhe_ge:
  assumes "of_int a \<le> x"
  shows "a \<le> round_half_even x"
proof -
  have "a \<le> \<lfloor>x\<rfloor>" using assms by (simp add: le_floor_iff)
  then show ?thesis using rhe_floor_le[of x] by simp
qed

lemma rhe_le:
  assumes "x \<le> of_int b"
  shows "round_half_even x \<le> b"
proof (cases "x = of_int b")
  case True
  then show ?thesis by (simp add: rhe_of_int)
next
  case False
  then have "x < of_int b" using assms by simp
  then have "\<lfloor>x\<rfloor> < b" by (simp add: floor_less_iff)
  then show ?thesis using rhe_le_floor[of x] by simp
qed

lemma rhe_mono:
  assumes "x \<le> y"
  shows "round_half_even x \<le> round_half_even y"
proof (cases "\<lfloor>x\<rfloor> = \<lfloor>y\<rfloor>")
  case True
  then show ?thesis using assms by (auto simp: round_half_even_def Let_def)
next
  case False
  then have "\<lfloor>x\<rfloor> < \<lfloor>y\<rfloor>" using floor_mono[OF assms] by simp
  then show ?thesis using rhe_le_floor[of x] rhe_floor_le[of y] by simp
qed

lemma rhe_err: "\<bar>of_int (round_half_even x) - x\<bar> \<le> 1 / 2"
proof -
  have "of_int \<lfloor>x\<rfloor> \<le> x" "x < of_int \<lfloor>x\<rfloor> + 1" by linarith+
  then show ?thesis by (auto simp: round_half_even_def Let_def)
qed

lemma rhe_minus: "round_half_even (- x) = - round_half_even x"
proof (cases "x = of_int \<lfloor>x\<rfloor>")
  case True
  then obtain n where "x = of_int n" ..
  then have "- x = of_int (- n)" by simp
  then show ?thesis using \<open>x = of_int n\<close> by (simp only: rhe_of_int)
next
  case False
  then have fl: "\<lfloor>- x\<rfloor> = - \<lfloor>x\<rfloor> - 1"
    by (simp add: floor_minus ceiling_altdef)
  show ?thesis
    unfolding round_half_even_def Let_def fl by auto
qed



lemma two_powi_pos: "0 < (2::real) powi e"
  by (simp add: zero_less_power_int)

lemma two_powi_mono: "a \<le> b \<Longrightarrow> (2::real) powi a \<le> 2 powi b"
  by (rule power_int_increasing) simp_all

lemma two_powi_less_iff: "(2::real) powi a < 2 powi b \<longleftrightarrow> a < b"
proof
  assume "(2::real) powi a < 2 powi b"
  then show "a < b" using two_powi_mono[of b a] by (cases "a < b") auto
next
  assume "a < b"
  then show "(2::real) powi a < 2 powi b" by (intro power_int_strict_increasing) simp_all
qed

lemma two_powi_Suc: "(2::real) powi (e + 1) = 2 * 2 powi e"
  by (simp add: power_int_add)

lemma ilog2_bounds:
  assumes "0 < x"
  shows "2 powi ilog2 x \<le> x" and "x < 2 powi (ilog2 x + 1)"
proof -
  have "2 powi ilog2 x \<le> x \<and> x < 2 powi (ilog2 x + 1)"
  proof (cases "1 \<le> x")
    case True
    define m where "m = \<lfloor>x\<rfloor>"
    have m: "0 < m" using True by (simp add: m_def)
    have k: "1 \<le> bitlen m" using m by (simp add: bitlen_alt_def)
    have il: "ilog2 x = bitlen m - 1" using True by (simp add: ilog2_def m_def)
    have b: "2 ^ nat (bitlen m - 1) \<le> m" "m < 2 ^ nat (bitlen m)"
      using bitlen_bounds[OF m] by simp_all
    have lo: "(2::real) powi (bitlen m - 1) \<le> of_int m"
    proof -
      have "(2::real) powi (bitlen m - 1) = 2 ^ nat (bitlen m - 1)"
        using k by (simp add: power_int_nonneg_exp)
      also have "\<dots> = of_int (2 ^ nat (bitlen m - 1))" by simp
      also have "\<dots> \<le> of_int m" using b(1) by (simp only: of_int_le_iff)
      finally show ?thesis .
    qed
    have hi: "of_int (m + 1) \<le> (2::real) powi bitlen m"
    proof -
      have "m + 1 \<le> 2 ^ nat (bitlen m)" using b(2) by simp
      then have "(of_int (m + 1) :: real) \<le> of_int (2 ^ nat (bitlen m))"
        by (simp only: of_int_le_iff)
      also have "\<dots> = 2 powi bitlen m" using k by (simp add: power_int_nonneg_exp)
      finally show ?thesis .
    qed
    have "of_int m \<le> x" "x < of_int (m + 1)" unfolding m_def by linarith+
    then show ?thesis using lo hi by (simp add: il)
  next
    case False
    then have x1: "x < 1" by simp
    define y where "y = 1 / x"
    have y: "1 < y" using assms x1 by (simp add: y_def)
    define m where "m = \<lceil>y\<rceil> - 1"
    have m: "0 < m" using y by (simp add: m_def less_ceiling_iff)
    have k: "1 \<le> bitlen m" using m by (simp add: bitlen_alt_def)
    have il: "ilog2 x = - bitlen m" using False by (simp add: ilog2_def m_def y_def)
    have b: "2 ^ nat (bitlen m - 1) \<le> m" "m < 2 ^ nat (bitlen m)"
      using bitlen_bounds[OF m] by simp_all
    have ym: "of_int m < y" "y \<le> of_int (m + 1)" unfolding m_def by linarith+
    have hi: "y \<le> (2::real) powi bitlen m"
    proof -
      have "m + 1 \<le> 2 ^ nat (bitlen m)" using b(2) by simp
      then have "(of_int (m + 1) :: real) \<le> of_int (2 ^ nat (bitlen m))"
        by (simp only: of_int_le_iff)
      also have "\<dots> = 2 powi bitlen m" using k by (simp add: power_int_nonneg_exp)
      finally show ?thesis using ym(2) by simp
    qed
    have lo: "(2::real) powi (bitlen m - 1) < y"
    proof -
      have "(2::real) powi (bitlen m - 1) = 2 ^ nat (bitlen m - 1)"
        using k by (simp add: power_int_nonneg_exp)
      also have "\<dots> = of_int (2 ^ nat (bitlen m - 1))" by simp
      also have "\<dots> \<le> of_int m" using b(1) by (simp only: of_int_le_iff)
      finally show ?thesis using ym(1) by simp
    qed
    have xy: "x = 1 / y" using assms by (simp add: y_def)
    have "2 powi (- bitlen m) \<le> x"
    proof -
      have "1 / (2::real) powi bitlen m \<le> 1 / y"
        using hi y by (intro divide_left_mono) (simp_all add: two_powi_pos)
      then show ?thesis by (simp add: xy power_int_minus_divide)
    qed
    moreover have "x < 2 powi (- bitlen m + 1)"
    proof -
      have "1 / y < 1 / (2::real) powi (bitlen m - 1)"
        using lo y by (intro divide_strict_left_mono) (simp_all add: two_powi_pos)
      also have "\<dots> = 2 powi (- (bitlen m - 1))"
        by (simp only: power_int_minus_divide)
      finally show ?thesis by (simp add: xy)
    qed
    ultimately show ?thesis by (simp add: il)
  qed
  then show "2 powi ilog2 x \<le> x" and "x < 2 powi (ilog2 x + 1)" by simp_all
qed

lemma ilog2_mono:
  assumes "0 < x" "x \<le> y"
  shows "ilog2 x \<le> ilog2 y"
proof -
  have "2 powi ilog2 x \<le> x" using ilog2_bounds(1)[OF assms(1)] .
  also have "x \<le> y" by fact
  also have "y < 2 powi (ilog2 y + 1)" using ilog2_bounds(2)[of y] assms by simp
  finally have "ilog2 x < ilog2 y + 1" by (simp add: two_powi_less_iff)
  then show ?thesis by simp
qed

lemma quantum_pos: "0 < quantum p emin x"
  by (simp add: quantum_def two_powi_pos)

lemma quantum_minus: "quantum p emin (- x) = quantum p emin x"
  by (simp add: quantum_def)

lemma round_real_minus: "round_real p emin (- x) = - round_real p emin x"
  by (simp add: round_real_def quantum_minus rhe_minus)

lemma round_real_pos_bounds:
  assumes x: "0 < x" and p: "1 \<le> p"
  shows "0 \<le> round_real p emin x"
    and "round_real p emin x \<le> 2 powi (max (ilog2 x) emin + 1)"
    and "emin \<le> ilog2 x \<Longrightarrow> 2 powi (max (ilog2 x) emin) \<le> round_real p emin x"
proof -
  define e where "e = max (ilog2 x) emin"
  define q where "q = quantum p emin x"
  define n where "n = round_half_even (x / q)"
  have q: "0 < q" by (simp add: q_def quantum_pos)
  have qe: "q = 2 powi (e - int p + 1)" using x by (simp add: q_def quantum_def e_def)
  have r: "round_real p emin x = of_int n * q"
    using x by (simp add: round_real_def q_def n_def)
  have top: "2 powi (e + 1) = of_int (2 ^ p) * q"
  proof -
    have "(2::real) powi (e + 1) = 2 powi (int p + (e - int p + 1))" by simp
    also have "\<dots> = 2 powi int p * 2 powi (e - int p + 1)"
      by (subst power_int_add) simp_all
    finally show ?thesis by (simp add: qe)
  qed
  have bot: "2 powi e = of_int (2 ^ (p - 1)) * q"
  proof -
    have "(2::real) powi e = 2 powi (int (p - 1) + (e - int p + 1))"
      using p by (simp add: of_nat_diff)
    also have "\<dots> = 2 powi int (p - 1) * 2 powi (e - int p + 1)"
      by (subst power_int_add) simp_all
    finally show ?thesis by (simp add: qe)
  qed
  have "0 \<le> x / q" using x q by simp
  then have "0 \<le> n" unfolding n_def using rhe_ge[of 0 "x / q"] by simp
  then show "0 \<le> round_real p emin x" using q by (simp add: r)
  have "x < 2 powi (ilog2 x + 1)" using ilog2_bounds(2)[OF x] .
  also have "\<dots> \<le> 2 powi (e + 1)" by (intro two_powi_mono) (simp add: e_def)
  finally have "x / q \<le> of_int (2 ^ p)" using q by (simp add: top pos_divide_le_eq)
  then have "n \<le> 2 ^ p" unfolding n_def by (rule rhe_le)
  then have "(of_int n :: real) \<le> of_int (2 ^ p)" by (simp only: of_int_le_iff)
  then have "of_int n * q \<le> of_int (2 ^ p) * q" using q by (intro mult_right_mono) simp_all
  then show "round_real p emin x \<le> 2 powi (max (ilog2 x) emin + 1)"
    using top by (simp add: r e_def)
  show "2 powi (max (ilog2 x) emin) \<le> round_real p emin x" if "emin \<le> ilog2 x"
  proof -
    have "e = ilog2 x" using that by (simp add: e_def)
    then have "2 powi e \<le> x" using ilog2_bounds(1)[OF x] by simp
    then have "of_int (2 ^ (p - 1)) \<le> x / q" using q by (simp add: bot pos_le_divide_eq)
    then have "2 ^ (p - 1) \<le> n" unfolding n_def by (rule rhe_ge)
    then have "(of_int (2 ^ (p - 1)) :: real) \<le> of_int n" by (simp only: of_int_le_iff)
    then have "of_int (2 ^ (p - 1)) * q \<le> of_int n * q"
      using q by (intro mult_right_mono) simp_all
    then show ?thesis using bot by (simp add: r e_def)
  qed
qed

lemma round_real_mono_pos:
  assumes "0 < x" "x \<le> y" "1 \<le> p"
  shows "round_real p emin x \<le> round_real p emin y"
proof -
  have y: "0 < y" using assms by simp
  define ex where "ex = max (ilog2 x) emin"
  define ey where "ey = max (ilog2 y) emin"
  have le: "ex \<le> ey" using ilog2_mono[OF assms(1,2)] by (simp add: ex_def ey_def)
  show ?thesis
  proof (cases "ex = ey")
    case True
    then have q: "quantum p emin x = quantum p emin y"
      using assms(1) y by (simp add: quantum_def ex_def ey_def)
    have "x / quantum p emin y \<le> y / quantum p emin y"
      using assms(2) quantum_pos[of p emin y] by (simp add: divide_right_mono)
    then have "round_half_even (x / quantum p emin y) \<le> round_half_even (y / quantum p emin y)"
      by (rule rhe_mono)
    then have "(of_int (round_half_even (x / quantum p emin y)) :: real)
                 \<le> of_int (round_half_even (y / quantum p emin y))"
      by (simp only: of_int_le_iff)
    then show ?thesis
      using assms(1) y quantum_pos[of p emin y]
      by (simp add: round_real_def q mult_le_cancel_right_pos)
  next
    case False
    then have lt: "ex + 1 \<le> ey" using le by simp
    then have "emin < ey" by (simp add: ex_def)
    then have normal: "emin \<le> ilog2 y" by (simp add: ey_def)
    have "round_real p emin x \<le> 2 powi (ex + 1)"
      using round_real_pos_bounds(2)[OF assms(1,3)] by (simp add: ex_def)
    also have "\<dots> \<le> 2 powi ey" using lt by (rule two_powi_mono)
    also have "\<dots> \<le> round_real p emin y"
      using round_real_pos_bounds(3)[OF y assms(3) normal] by (simp add: ey_def)
    finally show ?thesis .
  qed
qed

lemma round_real_zero: "round_real p emin 0 = 0"
  by (simp add: round_real_def)

lemma round_real_nonneg: "0 \<le> x \<Longrightarrow> 1 \<le> p \<Longrightarrow> 0 \<le> round_real p emin x"
  using round_real_pos_bounds(1)[of x p emin] by (cases "x = 0") (simp_all add: round_real_zero)

lemma round_real_mono:
  assumes "x \<le> y" "1 \<le> p"
  shows "round_real p emin x \<le> round_real p emin y"
proof -
  consider "0 < x" | "x \<le> 0" "0 \<le> y" | "y < 0" by linarith
  then show ?thesis
  proof cases
    case 1
    then show ?thesis using round_real_mono_pos[OF _ assms] by simp
  next
    case 2
    have "round_real p emin x = - round_real p emin (- x)" by (simp add: round_real_minus)
    moreover have "0 \<le> round_real p emin (- x)" using 2(1) assms(2) by (intro round_real_nonneg) simp_all
    moreover have "0 \<le> round_real p emin y" using 2(2) assms(2) by (intro round_real_nonneg)
    ultimately show ?thesis by simp
  next
    case 3
    then have "round_real p emin (- y) \<le> round_real p emin (- x)"
      using assms by (intro round_real_mono_pos) simp_all
    then show ?thesis by (simp add: round_real_minus)
  qed
qed

lemma round_real_error:
  assumes "x \<noteq> 0" "1 \<le> p" "emin \<le> ilog2 \<bar>x\<bar>"
  shows "\<bar>round_real p emin x - x\<bar> \<le> \<bar>x\<bar> / 2 ^ p"
proof -
  define e where "e = ilog2 \<bar>x\<bar>"
  define q where "q = quantum p emin x"
  have q: "0 < q" by (simp add: q_def quantum_pos)
  have qe: "q = 2 powi (e - int p + 1)" using assms(3) by (simp add: q_def quantum_def e_def)
  have r: "round_real p emin x = of_int (round_half_even (x / q)) * q"
    using assms(1) by (simp add: round_real_def q_def)
  have "round_real p emin x - x = (of_int (round_half_even (x / q)) - x / q) * q"
    using q by (simp add: r left_diff_distrib)
  then have "\<bar>round_real p emin x - x\<bar> = \<bar>of_int (round_half_even (x / q)) - x / q\<bar> * q"
    using q by (simp add: abs_mult)
  also have "\<dots> \<le> (1 / 2) * q" using rhe_err[of "x / q"] q by (intro mult_right_mono) simp_all
  also have "\<dots> = 2 powi e / 2 ^ p"
  proof -
    have "(2::real) powi e = 2 powi (int p - 1 + (e - int p + 1))" by simp
    also have "\<dots> = 2 powi (int p - 1) * 2 powi (e - int p + 1)"
      by (subst power_int_add) simp_all
    also have "(2::real) powi (int p - 1) = 2 ^ p / 2"
      using assms(2) by (simp add: power_int_diff)
    finally show ?thesis by (simp add: qe)
  qed
  also have "\<dots> \<le> \<bar>x\<bar> / 2 ^ p"
    using ilog2_bounds(1)[of "\<bar>x\<bar>"] assms(1) by (intro divide_right_mono) (simp_all add: e_def)
  finally show ?thesis .
qed

lemma round_fp_mono:
  assumes "x \<le> y" "1 \<le> p"
  shows "fp_le (round_fp p emin emax x) (round_fp p emin emax y)"
  using round_real_mono[OF assms, of emin] two_powi_pos[of "emax + 1"]
  by (auto simp: round_fp_def Let_def)

lemma round_real_of_int_pos:
  assumes p: "1 \<le> p" and emin: "emin \<le> 0" and n: "0 < n" "n \<le> 2 ^ p"
  shows "round_real p emin (of_int n) = of_int n"
proof -
  define x :: real where "x = of_int n"
  define e where "e = ilog2 x"
  have x: "1 \<le> x" "x \<le> 2 ^ p" "0 < x"
    using n by (simp_all add: x_def flip: of_int_power)
  have "(2::real) powi 0 \<le> x" using x(1) by simp
  also have "x < 2 powi (e + 1)" unfolding e_def by (rule ilog2_bounds(2)[OF x(3)])
  finally have "0 < e + 1" by (simp only: two_powi_less_iff)
  then have e0: "0 \<le> e" by simp
  have "2 powi e \<le> x" unfolding e_def by (rule ilog2_bounds(1)[OF x(3)])
  also have "x \<le> 2 powi int p" using x(2) by simp
  also have "\<dots> < 2 powi (int p + 1)" by (simp only: two_powi_less_iff)
  finally have "e < int p + 1" by (simp only: two_powi_less_iff)
  then have ep: "e \<le> int p" by simp
  define q where "q = quantum p emin x"
  have qe: "q = 2 powi (e - int p + 1)"
    using x(3) e0 emin by (simp add: q_def quantum_def e_def)
  have r: "round_real p emin x = of_int (round_half_even (x / q)) * q"
    using x(3) by (simp add: round_real_def q_def)
  have q: "0 < q" by (simp add: q_def quantum_pos)
  have "\<exists>m. x / q = of_int m"
  proof (cases "e = int p")
    case True
    then have "2 ^ p \<le> x" using \<open>2 powi e \<le> x\<close> by simp
    then have "x = 2 ^ p" using x(2) by simp
    moreover have "q = 2" using True by (simp add: qe)
    ultimately have "x / q = of_int (2 ^ (p - 1))"
      using p by (cases p) simp_all
    then show ?thesis ..
  next
    case False
    then have lt: "e < int p" using ep by simp
    define k where "k = nat (int p - 1 - e)"
    have "e - int p + 1 = - int k" using lt by (simp add: k_def)
    then have "q = 1 / 2 ^ k" by (simp add: qe power_int_minus_divide)
    then have "x / q = of_int (n * 2 ^ k)" by (simp add: x_def)
    then show ?thesis ..
  qed
  then obtain m where m: "x / q = of_int m" ..
  have "round_real p emin x = of_int m * q" by (simp only: r m rhe_of_int)
  also have "\<dots> = x" using m q by (simp add: field_simps)
  finally show ?thesis by (simp add: x_def)
qed

lemma round_real_of_int:
  assumes "1 \<le> p" "emin \<le> 0" "\<bar>n\<bar> \<le> 2 ^ p"
  shows "round_real p emin (of_int n) = of_int n"
proof -
  consider "n = 0" | "0 < n" | "n < 0" by linarith
  then show ?thesis
  proof cases
    case 1
    then show ?thesis by (simp add: round_real_zero)
  next
    case 2
    then show ?thesis using assms by (intro round_real_of_int_pos) simp_all
  next
    case 3
    then have "round_real p emin (of_int (- n)) = of_int (- n)"
      using assms by (intro round_real_of_int_pos) simp_all
    then show ?thesis by (simp add: round_real_minus)
  qed
qed

lemma round_fp_exact:
  assumes "x \<in> \<int>" "\<bar>x\<bar> \<le> 2 ^ p" "1 \<le> p" "emin \<le> 0" "int p \<le> emax"
  shows "round_fp p emin emax x = Finite x"
proof -
  from assms(1) obtain n where n: "x = of_int n" by (auto elim: Ints_cases)
  have "\<bar>n\<bar> \<le> 2 ^ p"
  proof -
    have "(of_int \<bar>n\<bar> :: real) \<le> of_int (2 ^ p)" using assms(2) by (simp add: n)
    then show ?thesis by (simp only: of_int_le_iff)
  qed
  then have r: "round_real p emin x = x"
    using round_real_of_int[OF assms(3,4)] by (simp add: n)
  have "\<bar>x\<bar> \<le> 2 powi int p" using assms(2) by simp
  also have "\<dots> < 2 powi (emax + 1)" using assms(5) by (simp only: two_powi_less_iff)
  finally show ?thesis by (simp add: round_fp_def r)
qed

lemma to_single_exact: "x \<in> \<int> \<Longrightarrow> \<bar>x\<bar> \<le> 16777216 \<Longrightarrow> to_single x = Finite x"
  unfolding to_single_def by (rule round_fp_exact) simp_all

lemma to_double_exact: "x \<in> \<int> \<Longrightarrow> \<bar>x\<bar> \<le> 9007199254740992 \<Longrightarrow> to_double x = Finite x"
  unfolding to_double_def by (rule round_fp_exact) simp_all

lemma round_real_abs: "1 \<le> p \<Longrightarrow> \<bar>round_real p emin x\<bar> = round_real p emin \<bar>x\<bar>"
proof (cases "0 \<le> x")
  case True
  assume "1 \<le> p"
  then show ?thesis using True round_real_nonneg[of x p emin] by simp
next
  case False
  assume p: "1 \<le> p"
  have "0 \<le> round_real p emin (- x)" using False p by (intro round_real_nonneg) simp_all
  then show ?thesis using False by (simp add: round_real_minus abs_if)
qed

lemma round_real_dyadic_pos:
  assumes p: "1 \<le> p" and m: "0 < m" "m < 2 ^ p" and k: "emin - int p + 1 \<le> k"
  shows "round_real p emin (of_int m * 2 powi k) = of_int m * 2 powi k"
proof -
  define x :: real where "x = of_int m * 2 powi k"
  have x: "0 < x" using m(1) by (simp add: x_def two_powi_pos)
  define e where "e = max (ilog2 x) emin"
  define q where "q = quantum p emin x"
  have qe: "q = 2 powi (e - int p + 1)" using x by (simp add: q_def quantum_def e_def)
  have q: "0 < q" by (simp add: q_def quantum_pos)
  have "(of_int m :: real) < of_int (2 ^ p)" using m(2) by (simp only: of_int_less_iff)
  then have "x < 2 powi int p * 2 powi k"
    by (simp add: x_def two_powi_pos)
  also have "\<dots> = 2 powi (int p + k)" by (subst power_int_add) simp_all
  finally have "2 powi ilog2 x < (2::real) powi (int p + k)"
    using ilog2_bounds(1)[OF x] by simp
  then have "ilog2 x < int p + k" by (simp only: two_powi_less_iff)
  then have d: "e - int p + 1 \<le> k" using k by (simp add: e_def)
  define d where "d = nat (k - (e - int p + 1))"
  have "k = int d + (e - int p + 1)" using \<open>e - int p + 1 \<le> k\<close> by (simp add: d_def)
  then have "(2::real) powi k = 2 powi int d * 2 powi (e - int p + 1)"
    by (metis power_int_add zero_neq_numeral)
  then have xq: "x = of_int (m * 2 ^ d) * q" by (simp add: x_def qe)
  then have "x / q = of_int (m * 2 ^ d)" using q by simp
  then have "round_half_even (x / q) = m * 2 ^ d" by (simp only: rhe_of_int)
  then have "round_real p emin x = of_int (m * 2 ^ d) * q"
    using x by (simp add: round_real_def q_def)
  then have "round_real p emin x = x" by (simp only: xq[symmetric])
  then show ?thesis by (simp only: x_def)
qed

lemma round_real_dyadic:
  assumes "1 \<le> p" "\<bar>m\<bar> < 2 ^ p" "emin - int p + 1 \<le> k"
  shows "round_real p emin (of_int m * 2 powi k) = of_int m * 2 powi k"
proof -
  consider "m = 0" | "0 < m" | "m < 0" by linarith
  then show ?thesis
  proof cases
    case 1
    then show ?thesis by (simp add: round_real_zero)
  next
    case 2
    then show ?thesis using assms by (intro round_real_dyadic_pos) simp_all
  next
    case 3
    then have "round_real p emin (of_int (- m) * 2 powi k) = of_int (- m) * 2 powi k"
      using assms by (intro round_real_dyadic_pos) simp_all
    then have "round_real p emin (- (of_int m * 2 powi k)) = - (of_int m * 2 powi k)" by simp
    then show ?thesis by (simp only: round_real_minus neg_equal_iff_equal)
  qed
qed

lemma to_single_representable:
  assumes "single_precision x"
  shows "to_single x = Finite x"
proof -
  from assms obtain m k where mk: "\<bar>m\<bar> < 2 ^ 24" "- 149 \<le> k" "x = of_int m * 2 powi k"
    and range: "\<bar>x\<bar> < 2 powi 128"
    by (auto simp: single_precision_def)
  have "round_real 24 (- 126) x = x"
    unfolding mk(3) using mk(1,2) by (intro round_real_dyadic) simp_all
  then show ?thesis using range by (simp add: to_single_def round_fp_def)
qed

lemma round_fp_normal:
  assumes p: "1 \<le> p" and lo: "2 powi emin \<le> \<bar>x\<bar>" and hi: "\<bar>x\<bar> < 2 powi emax"
  shows "\<exists>r. round_fp p emin emax x = Finite r \<and> \<bar>r - x\<bar> \<le> \<bar>x\<bar> / 2 ^ p"
proof -
  have "0 < \<bar>x\<bar>" using lo two_powi_pos[of emin] by linarith
  then have x0: "x \<noteq> 0" "0 < \<bar>x\<bar>" by auto
  have "2 powi emin < (2::real) powi (ilog2 \<bar>x\<bar> + 1)"
    using lo ilog2_bounds(2)[OF x0(2)] by simp
  then have normal: "emin \<le> ilog2 \<bar>x\<bar>" by (simp add: two_powi_less_iff)
  have "2 powi ilog2 \<bar>x\<bar> < (2::real) powi emax"
    using hi ilog2_bounds(1)[OF x0(2)] by simp
  then have e: "ilog2 \<bar>x\<bar> + 1 \<le> emax" by (simp add: two_powi_less_iff)
  have "\<bar>round_real p emin x\<bar> = round_real p emin \<bar>x\<bar>" using p by (rule round_real_abs)
  also have "\<dots> \<le> 2 powi (max (ilog2 \<bar>x\<bar>) emin + 1)"
    using round_real_pos_bounds(2)[OF x0(2) p] .
  also have "\<dots> \<le> 2 powi emax" using e normal by (intro two_powi_mono) simp
  also have "\<dots> < 2 powi (emax + 1)" by (simp only: two_powi_less_iff)
  finally have "round_fp p emin emax x = Finite (round_real p emin x)"
    by (simp add: round_fp_def)
  then show ?thesis using round_real_error[OF x0(1) p normal] by simp
qed

section \<open>The order and the addition of floating-point numbers\<close>

lemma fp_zero_le_zero: "(0::fp) \<le> 0"
  by (simp add: zero_fp_def less_eq_fp_def)

lemma fp_le_trans: "a \<le> b \<Longrightarrow> b \<le> c \<Longrightarrow> a \<le> (c::fp)"
  by (cases a; cases b; cases c; simp add: less_eq_fp_def)

lemma fp_le_refl: "a \<noteq> NaN \<Longrightarrow> a \<le> (a::fp)"
  by (cases a; simp add: less_eq_fp_def)

lemma fp_le_not_NaN: "a \<le> (b::fp) \<Longrightarrow> a \<noteq> NaN \<and> b \<noteq> NaN"
  by (cases a; cases b; simp add: less_eq_fp_def)

lemma pymax_max: "pymax a b = max a b"
  by (cases a; cases b; simp add: pymax_def max_def less_fp_def less_eq_fp_def)

lemma fp_max_NaN: "max a NaN = a"
  by (cases a; simp add: max_def less_eq_fp_def)

lemma fp_max_NInf: "a \<noteq> NaN \<Longrightarrow> max a NInf = a"
  by (cases a; simp add: max_def less_eq_fp_def)

lemma fp_max_ge_left: "a \<noteq> NaN \<Longrightarrow> a \<le> max a (b::fp)"
  by (cases a; cases b; simp add: max_def less_eq_fp_def)

lemma fp_max_nonneg: "0 \<le> a \<Longrightarrow> 0 \<le> max a (b::fp)"
  by (cases a; cases b; simp add: max_def less_eq_fp_def zero_fp_def)

lemma fp_max_mono: "a \<le> a' \<Longrightarrow> b \<le> b' \<Longrightarrow> max a b \<le> max a' (b'::fp)"
  by (cases a; cases a'; cases b; cases b'; simp add: max_def less_eq_fp_def)

lemma to_double_mono: "x \<le> y \<Longrightarrow> to_double x \<le> to_double y"
  unfolding to_double_def less_eq_fp_def by (rule round_fp_mono) simp_all

lemma round_fp_not_NaN: "round_fp p emin emax x \<noteq> NaN"
  by (simp add: round_fp_def Let_def)

lemma fp_le_PInf: "a \<noteq> NaN \<Longrightarrow> fp_le a PInf"
  by (cases a) simp_all

lemma fp_le_NInf: "b \<noteq> NaN \<Longrightarrow> fp_le NInf b"
  by (cases b) simp_all

lemma to_double_not_NaN: "to_double x \<noteq> NaN"
  by (simp add: to_double_def round_fp_not_NaN)

lemma fp_add_right_mono:
  assumes "x \<le> (y::fp)"
  shows "v + x = NaN \<or> v + y = NaN \<or> v + x \<le> v + y"
proof (cases "\<exists>r s t. v = Finite r \<and> x = Finite s \<and> y = Finite t")
  case True
  then obtain r s t where f: "v = Finite r" "x = Finite s" "y = Finite t" by blast
  then have "s \<le> t" using assms by (simp add: less_eq_fp_def)
  then have "to_double (r + s) \<le> to_double (r + t)" by (intro to_double_mono) simp
  then show ?thesis by (simp add: f plus_fp_def)
next
  case False
  then show ?thesis
    using assms
    by (cases v; cases x; cases y;
        simp add: plus_fp_def less_eq_fp_def fp_le_PInf fp_le_NInf to_double_not_NaN)
qed

lemma fp_add_NaN_mono:
  assumes "0 \<le> x" "x \<le> (y::fp)" "v + x = NaN"
  shows "v + y = NaN"
  using assms
  by (cases v; cases x; cases y;
      simp add: plus_fp_def less_eq_fp_def zero_fp_def to_double_def round_fp_not_NaN)

lemma fp_add_NaN_only_right:
  assumes "0 \<le> x" "x \<le> (y::fp)" "v + y = NaN" "v + x \<noteq> NaN"
  shows "v + x = NInf"
  using assms
  by (cases v; cases x; cases y;
      simp add: plus_fp_def less_eq_fp_def zero_fp_def to_double_def round_fp_not_NaN)

lemma fp_step_mono:
  assumes "0 \<le> a" "a \<le> a'" "0 \<le> x" "x \<le> (y::fp)"
  shows "max a (v + x) \<le> max a' (v + y)"
proof -
  have a: "a \<noteq> NaN" "a' \<noteq> NaN" using fp_le_not_NaN[OF assms(2)] by simp_all
  consider "v + x = NaN" | "v + x \<noteq> NaN" "v + y = NaN" | "v + x \<noteq> NaN" "v + y \<noteq> NaN"
    by blast
  then show ?thesis
  proof cases
    case 1
    then have "v + y = NaN" using fp_add_NaN_mono[OF assms(3,4)] by simp
    then show ?thesis using 1 assms(2) by (simp add: fp_max_NaN)
  next
    case 2
    then have "v + x = NInf" using fp_add_NaN_only_right[OF assms(3,4)] by simp
    then show ?thesis using 2 a assms(2) by (simp add: fp_max_NaN fp_max_NInf)
  next
    case 3
    then have "v + x \<le> v + y" using fp_add_right_mono[OF assms(4), of v] by simp
    then show ?thesis using assms(2) by (intro fp_max_mono)
  qed
qed

text \<open>Small integers are computed with exactly.\<close>

lemma fp_add_exact:
  "x \<in> \<int> \<Longrightarrow> y \<in> \<int> \<Longrightarrow> \<bar>x + y\<bar> \<le> 9007199254740992 \<Longrightarrow> Finite x + Finite y = Finite (x + y)"
  by (simp add: plus_fp_def to_double_exact)

lemma fp_max_Finite: "max (Finite x) (Finite y) = Finite (max x y)"
  by (simp add: max_def less_eq_fp_def)

lemmas fp_eval = zero_fp_def to_single_exact fp_add_exact fp_max_Finite

section \<open>The loops fill the table\<close>

lemma c_int_id: "fits_c_int x \<Longrightarrow> c_int x = x"
  by (simp add: c_int_def fits_c_int_def)

lemma getitem_nat: "k < length xs \<Longrightarrow> getitem xs (int k) = Inr (xs ! k)"
  by (simp add: getitem_def index_of_def)

lemma setitem_nat: "k < length xs \<Longrightarrow> setitem xs (int k) v = Inr (xs[k := v])"
  by (simp add: setitem_def index_of_def)

lemma getitem2_nat:
  "r < length a \<Longrightarrow> c < length (a ! r) \<Longrightarrow> getitem2 a (int r) (int c) = Inr (a ! r ! c)"
  by (simp add: getitem2_def getitem_nat)

lemma setitem2_nat:
  "r < length a \<Longrightarrow> c < length (a ! r) \<Longrightarrow>
   setitem2 a (int r) (int c) v = Inr (a[r := (a ! r)[c := v]])"
  by (simp add: setitem2_def getitem_nat setitem_nat)

lemma filled_update:
  assumes "filled vs ws R C i j dp" "i < R" "j < C"
  shows "filled vs ws R C i (Suc j) (dp[i := (dp ! i)[j := cell vs ws i j]])"
  using assms unfolding filled_def
  by (auto simp: nth_list_update less_Suc_eq)

lemma loop_body_filled:
  assumes inv: "filled vs ws R C i j dp"
    and i: "1 \<le> i" "i < R" "i \<le> length ws" "i \<le> length vs"
    and j: "1 \<le> j" "j < C" "int C \<le> 2 ^ 31"
    and w: "0 \<le> ws ! (i - 1)" "ws ! (i - 1) < 2 ^ 31"
  shows "loop_body vs ws i j dp = Inr (dp[i := (dp ! i)[j := cell vs ws i j]])"
proof -
  obtain i' where i': "i = Suc i'" using i(1) by (cases i) auto
  have len: "length dp = R" "length (dp ! i') = C" "length (dp ! i) = C"
    using inv i by (auto simp: filled_def i')
  have prev: "dp ! i' ! c = cell vs ws i' c" if "c < C" for c
    using inv i that by (auto simp: filled_def i')
  have gw: "getitem ws (int i - 1) = Inr (ws ! i')"
    using i getitem_nat[of i' ws] by (simp add: i')
  have gv: "getitem vs (int i - 1) = Inr (vs ! i')"
    using i getitem_nat[of i' vs] by (simp add: i')
  have ge: "getitem2 dp (int i - 1) (int j) = Inr (cell vs ws i' j)"
    using getitem2_nat[of i' dp j] i j len prev by (simp add: i')
  have st: "setitem2 dp (int i) (int j) v = Inr (dp[i := (dp ! i)[j := v]])" for v
    using setitem2_nat[of i dp j] i j len by simp
  have fit: "fits_c_int (int j - ws ! i')"
    using j w by (simp add: fits_c_int_def i')
  have cw: "c_int (int j - ws ! i') = int j - ws ! i'"
    by (rule c_int_id[OF fit])
  show ?thesis
  proof (cases "ws ! i' \<le> int j")
    case True
    define k where "k = j - nat (ws ! i')"
    have ck: "c_int (int j - ws ! i') = int k"
      using True w by (simp add: cw k_def i')
    have "k < C" using j by (simp add: k_def)
    then have gr: "getitem2 dp (int i - 1) (int k) = Inr (cell vs ws i' k)"
      using getitem2_nat[of i' dp k] i len prev by (simp add: i')
    have c: "cell vs ws i j = max (cell vs ws i' j) (vs ! i' + cell vs ws i' k)"
      using True j by (simp add: i' k_def)
    show ?thesis
      unfolding loop_body_def gw
      by (simp add: ck gv ge gr st pymax_max c)
  next
    case False
    then have neg: "\<not> 0 \<le> c_int (int j - ws ! i')" by (simp add: cw)
    have c: "cell vs ws i j = cell vs ws i' j"
      using False j by (simp add: i')
    show ?thesis
      unfolding loop_body_def gw
      by (simp add: neg ge st c)
  qed
qed

lemma inner_loop_filled:
  assumes "filled vs ws R C i j dp"
    and "1 \<le> i" "i < R" "i \<le> length ws" "i \<le> length vs"
    and "1 \<le> j" "j \<le> C" "int C \<le> 2 ^ 31"
    and "0 \<le> ws ! (i - 1)" "ws ! (i - 1) < 2 ^ 31"
  shows "\<exists>dp'. inner_loop vs ws C i j dp = Inr dp' \<and> filled vs ws R C i C dp'"
  using assms
proof (induction "C - j" arbitrary: j dp)
  case 0
  then have "j = C" by simp
  then show ?case using 0 by (subst inner_loop.simps) simp
next
  case (Suc n)
  then have jC: "j < C" by simp
  let ?dp = "dp[i := (dp ! i)[j := cell vs ws i j]]"
  have body: "loop_body vs ws i j dp = Inr ?dp"
    using loop_body_filled[OF Suc.prems(1-5) Suc.prems(6) jC Suc.prems(8-10)] .
  have inv': "filled vs ws R C i (Suc j) ?dp"
    using filled_update[OF Suc.prems(1) Suc.prems(3) jC] .
  have "n = C - Suc j" using Suc.hyps(2) by simp
  from Suc.hyps(1)[OF this inv' Suc.prems(2-5)] jC Suc.prems(8-10)
  obtain dp' where "inner_loop vs ws C i (Suc j) ?dp = Inr dp'" "filled vs ws R C i C dp'"
    by auto
  then show ?case using jC body by (subst inner_loop.simps) simp
qed

lemma filled_next_row:
  "filled vs ws R C i C dp \<Longrightarrow> 1 \<le> i \<Longrightarrow> filled vs ws R C (Suc i) 1 dp"
  unfolding filled_def
  by (auto simp: less_Suc_eq)

lemma outer_loop_filled:
  assumes "filled vs ws R C i 1 dp"
    and "1 \<le> i" "i \<le> R" "R \<le> Suc (length ws)" "R \<le> Suc (length vs)"
    and "1 \<le> C" "int C \<le> 2 ^ 31"
    and "\<forall>k<length ws. 0 \<le> ws ! k \<and> ws ! k < 2 ^ 31"
  shows "\<exists>dp'. outer_loop vs ws R C i dp = Inr dp' \<and> filled vs ws R C R 1 dp'"
  using assms
proof (induction "R - i" arbitrary: i dp)
  case 0
  then have "i = R" by simp
  then show ?case using 0 by (subst outer_loop.simps) simp
next
  case (Suc n)
  then have iR: "i < R" by simp
  have il: "i \<le> length ws" "i \<le> length vs" using iR Suc.prems by simp_all
  have "i - 1 < length ws" using il Suc.prems(2) by simp
  then have w: "0 \<le> ws ! (i - 1)" "ws ! (i - 1) < 2 ^ 31" using Suc.prems(8) by simp_all
  from inner_loop_filled[OF Suc.prems(1) Suc.prems(2) iR il _ Suc.prems(6) Suc.prems(7) w]
  obtain dp1 where dp1: "inner_loop vs ws C i 1 dp = Inr dp1" "filled vs ws R C i C dp1"
    by auto
  have inv': "filled vs ws R C (Suc i) 1 dp1"
    using filled_next_row[OF dp1(2) Suc.prems(2)] .
  have "n = R - Suc i" using Suc.hyps(2) by simp
  from Suc.hyps(1)[OF this inv'] iR Suc.prems(4-8)
  obtain dp' where "outer_loop vs ws R C (Suc i) dp1 = Inr dp'" "filled vs ws R C R 1 dp'"
    by auto
  then show ?case using iR dp1(1) by (subst outer_loop.simps) simp
qed

lemma filled_zeros: "filled vs ws R C 1 1 (replicate R (replicate C 0))"
  by (auto simp: filled_def)

lemma filled_table_of:
  assumes "filled vs ws (Suc n) (Suc c) (Suc n) 1 dp"
  shows "dp = table_of vs ws n c"
proof (rule nth_equalityI)
  show "length dp = length (table_of vs ws n c)"
    using assms by (simp add: filled_def table_of_def)
next
  fix r assume "r < length dp"
  then have r: "r < Suc n" using assms by (simp add: filled_def)
  have row: "length (dp ! r) = Suc c" "\<And>k. k < Suc c \<Longrightarrow> dp ! r ! k = cell vs ws r k"
    using assms r by (auto simp: filled_def)
  have "dp ! r = map (cell vs ws r) [0..<Suc c]"
    by (rule nth_equalityI) (use row in \<open>auto simp del: upt_Suc\<close>)
  then show "dp ! r = table_of vs ws n c ! r"
    using r by (simp add: table_of_def del: upt_Suc)
qed

lemma np_zeros_nat: "np_zeros (int R) (int C) = Inr (replicate R (replicate C 0))"
  by (simp add: np_zeros_def)

lemma dp_table_eq:
  assumes len: "length ws \<le> length vs"
    and nonneg: "\<forall>w\<in>set ws. 0 \<le> w"
    and cap: "0 \<le> cap"
    and rep: "representable ws cap"
  shows "dp_table vs ws cap = Inr (table_of vs ws (length ws) (nat cap))"
proof -
  define R where "R = Suc (length ws)"
  define C where "C = Suc (nat cap)"
  have rows: "c_int (int (length ws) + 1) = int R"
    using rep by (simp add: representable_def c_int_id fits_c_int_def R_def)
  have cols: "c_int (cap + 1) = int C"
    using rep cap by (simp add: representable_def c_int_id fits_c_int_def C_def)
  have ws: "\<forall>k<length ws. 0 \<le> ws ! k \<and> ws ! k < 2 ^ 31"
    using nonneg rep by (simp add: representable_def)
  have C: "1 \<le> C" "int C \<le> 2 ^ 31" using rep cap by (simp_all add: representable_def C_def)
  have R: "1 \<le> R" "R \<le> Suc (length ws)" "R \<le> Suc (length vs)"
    using len by (simp_all add: R_def)
  from outer_loop_filled[OF filled_zeros _ R(1) R(2) R(3) C ws]
  obtain dp' where dp': "outer_loop vs ws R C 1 (replicate R (replicate C 0)) = Inr dp'"
      "filled vs ws R C R 1 dp'"
    by auto
  have "dp' = table_of vs ws (length ws) (nat cap)"
    using filled_table_of[of vs ws "length ws" "nat cap" dp'] dp'(2) by (simp add: R_def C_def)
  then show ?thesis
    using dp'(1) by (simp add: dp_table_def rows cols np_zeros_nat)
qed

lemma table_of_nth:
  "r \<le> n \<Longrightarrow> k \<le> c \<Longrightarrow> table_of vs ws n c ! r ! k = cell vs ws r k"
  unfolding table_of_def
  by (simp del: upt_Suc)

lemma cdef_knapsack_eq:
  assumes len: "length ws \<le> length vs"
    and nonneg: "\<forall>w\<in>set ws. 0 \<le> w"
    and cap: "0 \<le> cap"
    and rep: "representable ws cap"
  shows "cdef_knapsack vs ws cap = Inr (cell vs ws (length ws) (nat cap))"
proof -
  have rows: "c_int (int (length ws) + 1) - 1 = int (length ws)"
    using rep by (simp add: representable_def c_int_id fits_c_int_def)
  have cols: "c_int (cap + 1) - 1 = int (nat cap)"
    using rep cap by (simp add: representable_def c_int_id fits_c_int_def)
  have l: "length (table_of vs ws (length ws) (nat cap)) = Suc (length ws)"
    "length (table_of vs ws (length ws) (nat cap) ! length ws) = Suc (nat cap)"
    by (simp_all add: table_of_def del: upt_Suc)
  have "getitem2 (table_of vs ws (length ws) (nat cap)) (int (length ws)) (int (nat cap))
        = Inr (cell vs ws (length ws) (nat cap))"
    using getitem2_nat[of "length ws" "table_of vs ws (length ws) (nat cap)" "nat cap"] l
    by (simp add: table_of_nth)
  then show ?thesis
    unfolding cdef_knapsack_def Let_def rows cols dp_table_eq[OF assms]
    by simp
qed

lemma knapsack_eq:
  assumes len: "length ws \<le> length vs"
    and nonneg: "\<forall>w\<in>set ws. 0 \<le> w"
    and cap: "0 \<le> cap"
    and rep: "representable ws cap"
  shows "knapsack vs ws cap = Inr (cell (map to_single vs) ws (length ws) (nat cap))"
proof -
  have "list_all fits_c_int ws"
    using nonneg rep by (auto simp: list_all_iff fits_c_int_def representable_def)
  moreover have "fits_c_int cap"
    using cap rep by (simp add: fits_c_int_def representable_def)
  moreover have "length ws \<le> length (map to_single vs)" using len by simp
  ultimately show ?thesis
    using cdef_knapsack_eq[OF _ nonneg cap rep, of "map to_single vs"]
    by (simp add: knapsack_def array_f_def array_i_def)
qed

section \<open>Properties of the table entries\<close>

lemma cell_col0: "cell vs ws i 0 = 0"
  by (cases i) auto

lemma cell_nonneg: "0 \<le> cell vs ws i j"
  by (induction i arbitrary: j) (auto simp: fp_zero_le_zero fp_max_nonneg)

lemma cell_not_NaN: "cell vs ws i j \<noteq> NaN"
  using fp_le_not_NaN[OF cell_nonneg[of vs ws i j]] by simp

lemma cell_mono_row: "cell vs ws i j \<le> cell vs ws (Suc i) j"
  by (auto simp: cell_col0 fp_zero_le_zero fp_max_ge_left fp_le_refl cell_not_NaN)

lemma cell_mono_col: "j \<le> j' \<Longrightarrow> cell vs ws i j \<le> cell vs ws i j'"
proof (induction i arbitrary: j j')
  case 0
  then show ?case by (simp add: fp_zero_le_zero)
next
  case (Suc i)
  show ?case
  proof (cases "j = 0")
    case True
    then show ?thesis using cell_nonneg[of vs ws "Suc i" j'] by simp
  next
    case False
    then have j': "j' \<noteq> 0" using Suc.prems by simp
    have a: "cell vs ws i j \<le> cell vs ws i j'" using Suc.IH[OF Suc.prems] .
    have b: "cell vs ws i (j - nat (ws ! i)) \<le> cell vs ws i (j' - nat (ws ! i))"
      using Suc.IH[of "j - nat (ws ! i)" "j' - nat (ws ! i)"] Suc.prems by simp
    consider "ws ! i \<le> int j" | "\<not> ws ! i \<le> int j" "ws ! i \<le> int j'" | "\<not> ws ! i \<le> int j'"
      by blast
    then show ?thesis
    proof cases
      case 1
      then have "ws ! i \<le> int j'" using Suc.prems by simp
      then show ?thesis
        using 1 False j' fp_step_mono[OF cell_nonneg a cell_nonneg b, of "vs ! i"] by simp
    next
      case 2
      have "cell vs ws i j' \<le> max (cell vs ws i j') (vs ! i + cell vs ws i (j' - nat (ws ! i)))"
        by (intro fp_max_ge_left cell_not_NaN)
      then show ?thesis using 2 False j' fp_le_trans[OF a] by simp
    next
      case 3
      then have "\<not> ws ! i \<le> int j" using Suc.prems by simp
      then show ?thesis using 3 False j' a by simp
    qed
  qed
qed

lemma cell_mono_rows: "i \<le> i' \<Longrightarrow> cell vs ws i j \<le> cell vs ws i' j"
proof (induction "i' - i" arbitrary: i')
  case 0
  then show ?case by (simp add: fp_le_refl cell_not_NaN)
next
  case (Suc n)
  then obtain k where k: "i' = Suc k" "i \<le> k" "n = k - i" by (cases i') auto
  have "cell vs ws i j \<le> cell vs ws k j" using Suc.hyps(1)[OF k(3) k(2)] .
  then show ?case using fp_le_trans[OF _ cell_mono_row[of vs ws k j]] k(1) by simp
qed

lemma cell_take: "i \<le> n \<Longrightarrow> cell (take n vs) ws i j = cell vs ws i j"
  by (induction i arbitrary: j) auto

lemma c_int_0: "c_int 0 = 0"
  by (simp add: c_int_def)

lemma outer_loop_no_columns: "outer_loop vs ws R 0 i dp = Inr dp"
proof (induction "R - i" arbitrary: i)
  case 0
  then show ?case by (subst outer_loop.simps) simp
next
  case (Suc n)
  then have "n = R - Suc i" "i < R" by simp_all
  then show ?case
    using Suc.hyps(1)[of "Suc i"]
    by (subst outer_loop.simps) (simp add: inner_loop.simps[of vs ws 0])
qed

lemma negative_capacity_table:
  assumes "capacity < 0" "fits_c_int capacity"
  shows "dp_table values weights capacity
          = np_zeros (c_int (int (length weights) + 1)) (capacity + 1)"
proof -
  have cols: "c_int (capacity + 1) = capacity + 1"
    using assms by (intro c_int_id) (simp add: fits_c_int_def)
  show ?thesis
  proof (cases "capacity + 1 < 0 \<or> c_int (int (length weights) + 1) < 0")
    case True
    then show ?thesis by (auto simp: dp_table_def cols np_zeros_def)
  next
    case False
    then have "capacity + 1 = 0" using assms(1) by simp
    then show ?thesis
      using False by (simp add: dp_table_def c_int_0 np_zeros_def outer_loop_no_columns Let_def)
  qed
qed

lemma table_of_length:
  "length (table_of vs ws n c) = Suc n"
  "r \<le> n \<Longrightarrow> length (table_of vs ws n c ! r) = Suc c"
  by (simp_all add: table_of_def del: upt_Suc)

lemma table_of_recurrence:
  assumes "1 \<le> i" "i \<le> n" "1 \<le> j" "j \<le> c"
  shows "recurrence_at vs ws (table_of vs ws n c) i j"
proof -
  obtain k where k: "i = Suc k" using assms(1) by (cases i) auto
  have "k \<le> n" "j - nat (ws ! k) \<le> c" using assms k by simp_all
  then show ?thesis
    using assms unfolding recurrence_at_def
    by (simp add: table_of_nth k not_less)
qed

section \<open>When the result is the optimum\<close>

lemma exact_cell_nonneg: "0 \<le> exact_cell vs ws i j"
  by (induction i arbitrary: j) (auto simp: le_max_iff_disj)

lemma exact_cell_mono_row: "exact_cell vs ws i j \<le> exact_cell vs ws (Suc i) j"
  using exact_cell_nonneg[of vs ws i j] by (cases i) auto

lemma exact_cell_col0: "exact_cell vs ws i 0 = 0"
  by (cases i) auto

lemma total_empty: "total xs {} = 0"
  by (simp add: total_def)

lemma total_insert: "finite S \<Longrightarrow> k \<notin> S \<Longrightarrow> total xs (insert k S) = xs ! k + total xs S"
  by (simp add: total_def)

lemma finite_below: "S \<subseteq> {..<(i::nat)} \<Longrightarrow> finite S"
  by (rule finite_subset[OF _ finite_lessThan])

lemma total_weight_nonneg:
  assumes "S \<subseteq> {..<i}" "\<forall>k<i. 0 \<le> (ws :: int list) ! k"
  shows "0 \<le> total ws S"
  unfolding total_def using assms by (intro sum_nonneg) auto

lemma exact_cell_upper:
  assumes "\<forall>k<i. 0 \<le> ws ! k"
    and "\<forall>k<i. ws ! k = 0 \<longrightarrow> vs ! k \<le> 0"
    and "S \<subseteq> {..<i}"
    and "total ws S \<le> int j"
  shows "total vs S \<le> exact_cell vs ws i j"
  using assms
proof (induction i arbitrary: S j)
  case 0
  then show ?case by (simp add: total_empty)
next
  case (Suc i)
  have pre: "\<forall>k<i. 0 \<le> ws ! k" "\<forall>k<i. ws ! k = 0 \<longrightarrow> vs ! k \<le> 0"
    using Suc.prems by simp_all
  show ?case
  proof (cases "i \<in> S")
    case False
    then have "S \<subseteq> {..<i}" using Suc.prems(3) by (auto simp: less_Suc_eq)
    then have "total vs S \<le> exact_cell vs ws i j"
      using Suc.IH[OF pre _ Suc.prems(4)] by simp
    then show ?thesis using exact_cell_mono_row[of vs ws i j] by simp
  next
    case True
    define S' where "S' = S - {i}"
    have S': "S' \<subseteq> {..<i}" "i \<notin> S'" "S = insert i S'"
      using True Suc.prems(3) by (auto simp: S'_def less_Suc_eq)
    have fin: "finite S'" using finite_below[OF S'(1)] .
    have tw: "total ws S = ws ! i + total ws S'"
      using total_insert[OF fin S'(2)] S'(3) by simp
    have tv: "total vs S = vs ! i + total vs S'"
      using total_insert[OF fin S'(2)] S'(3) by simp
    have wi: "0 \<le> ws ! i" using Suc.prems(1) by simp
    have w': "0 \<le> total ws S'" using total_weight_nonneg[OF S'(1) pre(1)] .
    show ?thesis
    proof (cases "j = 0")
      case True
      then have "ws ! i = 0" "total ws S' \<le> int 0" using tw wi w' Suc.prems(4) by simp_all
      then have "vs ! i \<le> 0" "total vs S' \<le> exact_cell vs ws i 0"
        using Suc.prems(2) Suc.IH[OF pre S'(1)] by simp_all
      then show ?thesis using True tv by (simp add: exact_cell_col0)
    next
      case False
      have le: "ws ! i \<le> int j" using tw w' Suc.prems(4) by simp
      have "total ws S' \<le> int (j - nat (ws ! i))" using tw wi le Suc.prems(4) by simp
      then have "total vs S' \<le> exact_cell vs ws i (j - nat (ws ! i))"
        using Suc.IH[OF pre S'(1)] by simp
      then show ?thesis using False le tv by simp
    qed
  qed
qed

lemma exact_cell_attained:
  assumes "\<forall>k<i. 0 \<le> ws ! k"
  shows "\<exists>S. S \<subseteq> {..<i} \<and> total ws S \<le> int j \<and> total vs S = exact_cell vs ws i j"
  using assms
proof (induction i arbitrary: j)
  case 0
  have "{} \<subseteq> {..<0::nat} \<and> total ws {} \<le> int j \<and> total vs {} = exact_cell vs ws 0 j"
    by (simp add: total_empty)
  then show ?case by blast
next
  case (Suc i)
  have pre: "\<forall>k<i. 0 \<le> ws ! k" using Suc.prems by simp
  have wi: "0 \<le> ws ! i" using Suc.prems by simp
  have keep: "\<exists>S. S \<subseteq> {..<Suc i} \<and> total ws S \<le> int j \<and> total vs S = exact_cell vs ws i j"
  proof -
    from Suc.IH[OF pre, of j] obtain S where
      "S \<subseteq> {..<i}" "total ws S \<le> int j" "total vs S = exact_cell vs ws i j" by blast
    then have "S \<subseteq> {..<Suc i} \<and> total ws S \<le> int j \<and> total vs S = exact_cell vs ws i j"
      by (auto simp: less_Suc_eq)
    then show ?thesis by blast
  qed
  show ?case
  proof (cases "j = 0")
    case True
    have "{} \<subseteq> {..<Suc i} \<and> total ws {} \<le> int j \<and> total vs {} = exact_cell vs ws (Suc i) j"
      using True by (simp add: total_empty)
    then show ?thesis by blast
  next
    case False
    show ?thesis
    proof (cases "ws ! i \<le> int j \<and> exact_cell vs ws i j < vs ! i + exact_cell vs ws i (j - nat (ws ! i))")
      case True
      from Suc.IH[OF pre, of "j - nat (ws ! i)"] obtain S where S:
        "S \<subseteq> {..<i}" "total ws S \<le> int (j - nat (ws ! i))"
        "total vs S = exact_cell vs ws i (j - nat (ws ! i))" by blast
      have fin: "finite S" using finite_below[OF S(1)] .
      have notin: "i \<notin> S" using S(1) by auto
      have "insert i S \<subseteq> {..<Suc i}" using S(1) by (auto simp: less_Suc_eq)
      moreover have "total ws (insert i S) \<le> int j"
      proof -
        have "nat (ws ! i) \<le> j" using True wi by (simp add: nat_le_iff)
        then have "int (j - nat (ws ! i)) = int j - ws ! i" using wi by (simp add: of_nat_diff)
        then show ?thesis using total_insert[OF fin notin, of ws] S(2) by linarith
      qed
      moreover have "total vs (insert i S) = exact_cell vs ws (Suc i) j"
        using total_insert[OF fin notin, of vs] S(3) True False by (simp add: max_def)
      ultimately show ?thesis by blast
    next
      case no: False
      then have "exact_cell vs ws (Suc i) j = exact_cell vs ws i j"
        using False by (auto simp: max_def)
      then show ?thesis using keep by simp
    qed
  qed
qed

lemma best_value_exact_cell:
  assumes "\<forall>w\<in>set ws. 0 \<le> w"
    and "\<forall>k<length ws. ws ! k = 0 \<longrightarrow> vs ! k \<le> 0"
    and "0 \<le> cap"
  shows "best_value vs ws cap = exact_cell vs ws (length ws) (nat cap)"
proof -
  have nn: "\<forall>k<length ws. 0 \<le> ws ! k" using assms(1) by simp
  have fin: "finite (total vs ` feasible ws cap)"
    by (simp add: feasible_def)
  from exact_cell_attained[OF nn, of "nat cap" vs] obtain S where S:
    "S \<subseteq> {..<length ws}" "total ws S \<le> int (nat cap)"
    "total vs S = exact_cell vs ws (length ws) (nat cap)" by blast
  have mem: "exact_cell vs ws (length ws) (nat cap) \<in> total vs ` feasible ws cap"
    using S assms(3) by (auto simp: feasible_def image_iff intro!: bexI[of _ S])
  have ub: "x \<le> exact_cell vs ws (length ws) (nat cap)" if "x \<in> total vs ` feasible ws cap" for x
  proof -
    from that obtain T where T: "T \<subseteq> {..<length ws}" "total ws T \<le> cap" "x = total vs T"
      by (auto simp: feasible_def)
    then have "total ws T \<le> int (nat cap)" using assms(3) by simp
    from exact_cell_upper[OF nn assms(2) T(1) this] T(3) show ?thesis by simp
  qed
  show ?thesis
    unfolding best_value_def using fin mem ub by (intro Max_eqI) auto
qed


lemma zero_weight_index:
  assumes "length ws \<le> length vs" "\<forall>(v, w)\<in>set (zip vs ws). w = 0 \<longrightarrow> v \<le> 0"
  shows "\<forall>k<length ws. ws ! k = 0 \<longrightarrow> vs ! k \<le> 0"
proof (intro allI impI)
  fix k assume k: "k < length ws" "ws ! k = 0"
  then have "(vs ! k, ws ! k) \<in> set (zip vs ws)"
    using assms(1) by (auto simp: set_zip)
  then show "vs ! k \<le> 0" using assms(2) k(2) by auto
qed

lemma exact_cell_int_bounded:
  assumes "\<forall>k<i. vs ! k \<in> \<int> \<and> \<bar>vs ! k\<bar> \<le> B"
  shows "exact_cell vs ws i j \<in> \<int> \<and> exact_cell vs ws i j \<le> of_nat i * B"
  using assms
proof (induction i arbitrary: j)
  case 0
  then show ?case by simp
next
  case (Suc i)
  have pre: "\<forall>k<i. vs ! k \<in> \<int> \<and> \<bar>vs ! k\<bar> \<le> B" using Suc.prems by simp
  have v: "vs ! i \<in> \<int>" "\<bar>vs ! i\<bar> \<le> B" using Suc.prems by simp_all
  have B: "0 \<le> B" using v(2) by linarith
  have ih: "exact_cell vs ws i j' \<in> \<int>" "exact_cell vs ws i j' \<le> of_nat i * B" for j'
    using Suc.IH[OF pre, of j'] by simp_all
  have s: "vs ! i + exact_cell vs ws i (j - nat (ws ! i)) \<le> of_nat (Suc i) * B"
    using ih(2)[of "j - nat (ws ! i)"] v(2) by (simp add: algebra_simps)
  have c: "exact_cell vs ws i j \<le> of_nat (Suc i) * B"
    using ih(2)[of j] B by (simp add: algebra_simps)
  have z: "0 \<le> of_nat (Suc i) * B" using B by simp
  show ?case
    using ih(1)[of j] ih(1)[of "j - nat (ws ! i)"] v(1) s c z
    by (auto simp: max_def simp del: of_nat_Suc)
qed

lemma cell_exact:
  assumes "i \<le> length vs"
    and "\<forall>k<i. vs ! k \<in> \<int> \<and> \<bar>vs ! k\<bar> \<le> 16777216"
    and "i \<le> 2 ^ 29"
  shows "cell (map to_single vs) ws i j = Finite (exact_cell vs ws i j)"
  using assms
proof (induction i arbitrary: j)
  case 0
  then show ?case by (simp add: zero_fp_def)
next
  case (Suc i)
  have pre: "i \<le> length vs" "\<forall>k<i. vs ! k \<in> \<int> \<and> \<bar>vs ! k\<bar> \<le> 16777216" "i \<le> 2 ^ 29"
    using Suc.prems by simp_all
  have ih: "cell (map to_single vs) ws i j' = Finite (exact_cell vs ws i j')" for j'
    using Suc.IH[OF pre] .
  have v: "vs ! i \<in> \<int>" "\<bar>vs ! i\<bar> \<le> 16777216" using Suc.prems by simp_all
  have vi: "map to_single vs ! i = Finite (vs ! i)"
    using Suc.prems(1) v by (simp add: to_single_exact)
  have b: "exact_cell vs ws i j' \<in> \<int>" "exact_cell vs ws i j' \<le> of_nat i * 16777216" for j'
    using exact_cell_int_bounded[OF pre(2), of ws j'] by simp_all
  have "(of_nat (Suc i) :: real) \<le> of_nat (2 ^ 29)"
    using Suc.prems(3) by (simp only: of_nat_le_iff)
  then have "(of_nat i :: real) \<le> 536870911" by simp
  then have "(of_nat i :: real) * 16777216 \<le> 536870911 * 16777216" by simp
  then have small: "exact_cell vs ws i j' \<le> 9007199254740992 - 16777216" for j'
    using b(2)[of j'] by simp
  have sum: "Finite (vs ! i) + Finite (exact_cell vs ws i j')
               = Finite (vs ! i + exact_cell vs ws i j')" for j'
  proof (rule fp_add_exact[OF v(1) b(1)])
    show "\<bar>vs ! i + exact_cell vs ws i j'\<bar> \<le> 9007199254740992"
      using v(2) small[of j'] exact_cell_nonneg[of vs ws i j'] by linarith
  qed
  show ?case by (simp add: ih vi sum fp_max_Finite zero_fp_def)
qed

text \<open>
  For equal-length sequences, non-negative weights and a non-negative capacity that are
  representable, \<open>knapsack\<close> returns the maximum total value over all subsets of item
  indices whose total weight is at most the capacity, provided no zero-weight item has
  a positive value (in particular when every weight is at least 1) and the values are
  integers small enough for every sum to be exact.
\<close>

theorem knapsack_optimal:
  assumes "length values = length weights"
    and "\<forall>w\<in>set weights. 0 \<le> w"
    and "0 \<le> capacity"
    and "representable weights capacity"
    and "\<forall>(v, w)\<in>set (zip values weights). w = 0 \<longrightarrow> v \<le> 0"
    and "\<forall>v\<in>set values. v \<in> \<int> \<and> \<bar>v\<bar> \<le> 16777216"
    and "length values \<le> 2 ^ 29"
  shows "knapsack values weights capacity = Inr (Finite (best_value values weights capacity))"
proof -
  have len: "length weights \<le> length values" using assms(1) by simp
  have small: "\<forall>k<length weights. values ! k \<in> \<int> \<and> \<bar>values ! k\<bar> \<le> 16777216"
    using assms(1,6) by simp
  have "best_value values weights capacity
          = exact_cell values weights (length weights) (nat capacity)"
    using best_value_exact_cell[OF assms(2) zero_weight_index[OF len assms(5)] assms(3)] .
  moreover have "cell (map to_single values) weights (length weights) (nat capacity)
          = Finite (exact_cell values weights (length weights) (nat capacity))"
    using cell_exact[OF len small] assms(1,7) by simp
  ultimately show ?thesis using knapsack_eq[OF len assms(2-4)] by simp
qed

section \<open>Surplus values\<close>

text \<open>
  When the values sequence is longer than the weights sequence the call succeeds, and
  its result is the one computed from the first \<open>len(weights)\<close> values alone.
\<close>

lemma surplus_values_ignored:
  assumes "length weights < length values"
    and "\<forall>w\<in>set weights. 0 \<le> w"
    and "0 \<le> capacity"
    and "representable weights capacity"
  shows "\<exists>r. knapsack values weights capacity = Inr r \<and>
             knapsack (take (length weights) values) weights capacity = Inr r"
proof -
  have len: "length weights \<le> length values" using assms(1) by simp
  have len': "length weights \<le> length (take (length weights) values)" using assms(1) by simp
  have "cell (map to_single (take (length weights) values)) weights (length weights) (nat capacity)
          = cell (map to_single values) weights (length weights) (nat capacity)"
    using cell_take[of "length weights" "length weights" "map to_single values"]
    by (simp add: take_map)
  then show ?thesis
    using knapsack_eq[OF len assms(2-4)] knapsack_eq[OF len' assms(2-4)] by simp
qed

section \<open>The scenarios of the specification\<close>

lemma scenario_A: "knapsack [60, 100, 120] [10, 20, 30] 50 = Inr (Finite 220)"
proof -
  have "knapsack [60, 100, 120] [10, 20, 30] 50
          = Inr (cell (map to_single [60, 100, 120]) [10, 20, 30] (length [10, 20, 30 :: int]) (nat 50))"
    by (rule knapsack_eq) (simp_all add: representable_def)
  then show ?thesis by (simp add: fp_eval numeral_3_eq_3)
qed

lemma scenario_B: "knapsack [1, 2, 3] [1, 1, 1] 2 = Inr (Finite 5)"
proof -
  have "knapsack [1, 2, 3] [1, 1, 1] 2
          = Inr (cell (map to_single [1, 2, 3]) [1, 1, 1] (length [1, 1, 1 :: int]) (nat 2))"
    by (rule knapsack_eq) (simp_all add: representable_def)
  then show ?thesis by (simp add: fp_eval)
qed

section \<open>The claims\<close>

subsection \<open>C1: the result is the optimum\<close>

text \<open>
  C1 says that \<open>knapsack\<close> returns the maximum total value over all subsets of items
  that fit the capacity. The code misses it when an item weighs nothing: with the items
  (value 5, weight 0) and (value 7, weight 1) and capacity 1 both items fit, for a total
  value of 12, but \<open>knapsack\<close> returns 7. The inner loop starts at column 1, so
  column 0 stays zero and the entry read at \<open>j - weight = 0\<close> does not count item 0.
\<close>

theorem C1_zero_weight_item_lost:
  "knapsack [5, 7] [0, 1] 1 = Inr (Finite 7) \<and> best_value [5, 7] [0, 1] 1 = 12"
proof -
  have "knapsack [5, 7] [0, 1] 1
          = Inr (cell (map to_single [5, 7]) [0, 1] (length [0, 1 :: int]) (nat 1))"
    by (rule knapsack_eq) (simp_all add: representable_def)
  then have "knapsack [5, 7] [0, 1] 1 = Inr (Finite 7)" by (simp add: fp_eval)
  moreover have "best_value [5, 7] [0, 1] 1 = 12" by code_simp
  ultimately show ?thesis by simp
qed

subsection \<open>C2: invalid inputs\<close>

text \<open>
  C2, as stated, fails: no input is validated. With three values and two weights
  (scenario C of the specification) \<open>knapsack\<close> returns 3 instead of raising.
\<close>

theorem C2_counterexample: "knapsack [1, 2, 3] [1, 1] 2 = Inr (Finite 3)"
proof -
  have "knapsack [1, 2, 3] [1, 1] 2
          = Inr (cell (map to_single [1, 2, 3]) [1, 1] (length [1, 1 :: int]) (nat 2))"
    by (rule knapsack_eq) (simp_all add: representable_def)
  then show ?thesis by (simp add: fp_eval)
qed

text \<open>
  C2, amended: a call with a negative capacity fails with an error and returns no
  value; when the capacity is representable the loops leave the table as allocated
  (it has no column, or its allocation was refused), so no entry is computed.
\<close>

theorem C2_amended:
  assumes "capacity < 0"
  shows "(\<exists>e. knapsack values weights capacity = Inl e) \<and>
         (fits_c_int capacity \<longrightarrow>
            (\<exists>v. array_f values = Inr v \<and>
                 dp_table v weights capacity
                   = np_zeros (c_int (int (length weights) + 1)) (capacity + 1)))"
proof -
  have "\<exists>e. cdef_knapsack v weights capacity = Inl e" if fit: "fits_c_int capacity" for v
  proof -
    define r where "r = c_int (int (length weights) + 1)"
    have cols: "c_int (capacity + 1) = capacity + 1"
      using assms fit by (intro c_int_id) (simp add: fits_c_int_def)
    have tab: "dp_table v weights capacity = np_zeros r (capacity + 1)"
      using negative_capacity_table[OF assms fit] by (simp add: r_def)
    show ?thesis
    proof (cases "r < 0 \<or> capacity + 1 < 0")
      case True
      then show ?thesis by (auto simp: cdef_knapsack_def tab np_zeros_def)
    next
      case False
      then have c: "capacity + 1 = 0" and r: "0 \<le> r" using assms by simp_all
      have "getitem2 (replicate (nat r) ([]::fp list)) (r - 1) (- 1) = Inl IndexError"
        using r by (auto simp: getitem2_def getitem_def index_of_def)
      then show ?thesis
        using r c by (simp add: cdef_knapsack_def tab np_zeros_def c_int_0 flip: r_def)
    qed
  qed
  then have "\<exists>e. knapsack values weights capacity = Inl e"
    by (auto simp: knapsack_def array_f_def array_i_def)
  then show ?thesis using negative_capacity_table[OF assms] by (simp add: array_f_def)
qed

theorem C2_amended_witness:
  "(\<exists>e. knapsack [1, 2] [1, 1] (- 1) = Inl e) \<and>
   (\<exists>v. array_f [1, 2] = Inr v \<and>
        dp_table v [1, 1] (- 1) = np_zeros (c_int (int (length [1, 1 :: int]) + 1)) (- 1 + 1))"
  using C2_amended[of "- 1" "[1, 2]" "[1, 1]"]
  by (simp add: fits_c_int_def)

subsection \<open>C3: marshaling and precision\<close>

text \<open>
  C3, as stated, fails: the values buffer is in single precision, so a value that is not
  a single-precision number is changed by the marshaling. The integer \<open>2^24 + 1\<close>
  becomes \<open>2^24\<close>.
\<close>

theorem C3_counterexample: "array_f [16777217] = Inr [Finite 16777216]"
  by (simp add: array_f_def) code_simp

text \<open>
  C3, amended: for a valid, representable input the marshaling produces two buffers of
  identical length, one entry per item, plus the capacity; every marshaled weight is
  the input weight; every marshaled value is the input value rounded to the nearest
  single-precision number: it is the input value itself when that is a
  single-precision number, and within a relative \<open>2^-24\<close> of it in the normal range
  of the format; and the table is accumulated in double precision: every entry of a row
  \<open>i\<close> from 1 and a column \<open>j\<close> from 1 obeys the recurrence with the double
  addition, which returns the exact sum rounded once to double precision, within a
  relative \<open>2^-53\<close> of it in the normal range.
\<close>

theorem C3_amended:
  assumes "length values = length weights"
    and "\<forall>w\<in>set weights. 0 \<le> w"
    and "0 \<le> capacity"
    and "representable weights capacity"
  shows "\<exists>v w. array_f values = Inr v \<and> array_i weights = Inr w \<and>
           length v = length w \<and> length v = length values \<and> w = weights \<and>
           (\<forall>k<length values. v ! k = to_single (values ! k)) \<and>
           (\<forall>k<length values. single_precision (values ! k) \<longrightarrow> v ! k = Finite (values ! k)) \<and>
           (\<forall>k<length values.
              2 powi (- 126) \<le> \<bar>values ! k\<bar> \<and> \<bar>values ! k\<bar> < 2 powi 127 \<longrightarrow>
              (\<exists>r. v ! k = Finite r \<and> \<bar>r - values ! k\<bar> \<le> \<bar>values ! k\<bar> / 2 ^ 24)) \<and>
           (\<exists>table. dp_table v w capacity = Inr table \<and>
              (\<forall>i\<in>{1..length w}. \<forall>j\<in>{1..nat capacity}. recurrence_at v w table i j)) \<and>
           (\<forall>a b. Finite a + Finite b = to_double (a + b)) \<and>
           (\<forall>x. 2 powi (- 1022) \<le> \<bar>x\<bar> \<and> \<bar>x\<bar> < 2 powi 1023 \<longrightarrow>
              (\<exists>r. to_double x = Finite r \<and> \<bar>r - x\<bar> \<le> \<bar>x\<bar> / 2 ^ 53))"
proof -
  let ?v = "map to_single values"
  let ?t = "table_of ?v weights (length weights) (nat capacity)"
  have len': "length weights \<le> length ?v" using assms(1) by simp
  have "list_all fits_c_int weights"
    using assms(2,4) by (auto simp: list_all_iff fits_c_int_def representable_def)
  then have w: "array_i weights = Inr weights" by (simp add: array_i_def)
  have v: "array_f values = Inr ?v" by (simp add: array_f_def)
  have l: "length ?v = length weights" "length ?v = length values" using assms(1) by simp_all
  have r1: "\<forall>k<length values. ?v ! k = to_single (values ! k)" by simp
  have r2: "\<forall>k<length values. single_precision (values ! k) \<longrightarrow> ?v ! k = Finite (values ! k)"
    by (simp add: to_single_representable)
  have r3: "\<forall>k<length values.
      2 powi (- 126) \<le> \<bar>values ! k\<bar> \<and> \<bar>values ! k\<bar> < 2 powi 127 \<longrightarrow>
      (\<exists>r. ?v ! k = Finite r \<and> \<bar>r - values ! k\<bar> \<le> \<bar>values ! k\<bar> / 2 ^ 24)"
  proof (intro allI impI)
    fix k assume "k < length values"
      and "2 powi (- 126) \<le> \<bar>values ! k\<bar> \<and> \<bar>values ! k\<bar> < 2 powi 127"
    then show "\<exists>r. ?v ! k = Finite r \<and> \<bar>r - values ! k\<bar> \<le> \<bar>values ! k\<bar> / 2 ^ 24"
      using round_fp_normal[of 24 "- 126" "values ! k" 127] by (simp add: to_single_def)
  qed
  have t: "\<exists>table. dp_table ?v weights capacity = Inr table \<and>
      (\<forall>i\<in>{1..length weights}. \<forall>j\<in>{1..nat capacity}. recurrence_at ?v weights table i j)"
    using dp_table_eq[OF len' assms(2-4)] table_of_recurrence by simp
  have a: "\<forall>a b. Finite a + Finite b = to_double (a + b)" by (simp add: plus_fp_def)
  have d: "\<forall>x. 2 powi (- 1022) \<le> \<bar>x\<bar> \<and> \<bar>x\<bar> < 2 powi 1023 \<longrightarrow>
      (\<exists>r. to_double x = Finite r \<and> \<bar>r - x\<bar> \<le> \<bar>x\<bar> / 2 ^ 53)"
  proof (intro allI impI)
    fix x :: real assume "2 powi (- 1022) \<le> \<bar>x\<bar> \<and> \<bar>x\<bar> < 2 powi 1023"
    then show "\<exists>r. to_double x = Finite r \<and> \<bar>r - x\<bar> \<le> \<bar>x\<bar> / 2 ^ 53"
      using round_fp_normal[of 53 "- 1022" x 1023] by (simp add: to_double_def)
  qed
  show ?thesis
    using v w l r1 r2 r3 t a d by blast
qed

theorem C3_amended_witness:
  "\<exists>v w. array_f [60, 100, 120] = Inr v \<and> array_i [10, 20, 30] = Inr w \<and>
     length v = length w \<and> w = [10, 20, 30] \<and> v ! 0 = Finite 60 \<and>
     Finite 16777216 + Finite 1 = Finite 16777217"
proof -
  have h: "length [60, 100, 120 :: real] = length [10, 20, 30 :: int]"
    "\<forall>w\<in>set [10, 20, 30 :: int]. 0 \<le> w" "(0::int) \<le> 50" "representable [10, 20, 30] 50"
    by (simp_all add: representable_def)
  have "60 = real_of_int 60 * 2 powi 0" by simp
  then have "\<exists>m k. \<bar>m\<bar> < 2 ^ 24 \<and> - 149 \<le> k \<and> (60::real) = of_int m * 2 powi k"
    by (intro exI[of _ 60] exI[of _ 0]) simp
  then have sp: "single_precision ([60, 100, 120] ! 0)" by (simp add: single_precision_def)
  from C3_amended[OF h]
  obtain v w where vw: "array_f [60, 100, 120] = Inr v" "array_i [10, 20, 30] = Inr w"
    "length v = length w" "w = [10, 20, 30]"
    "\<forall>k<length [60, 100, 120 :: real]. single_precision ([60, 100, 120] ! k) \<longrightarrow>
        v ! k = Finite ([60, 100, 120] ! k)"
    "\<forall>a b. Finite a + Finite b = to_double (a + b)"
    by blast
  have "v ! 0 = Finite 60" using vw(5) sp by simp
  moreover have "Finite 16777216 + Finite 1 = Finite 16777217"
    using vw(6) by (simp add: to_double_exact)
  ultimately show ?thesis using vw(1-4) by blast
qed

subsection \<open>C4: the recurrence\<close>

text \<open>
  C4: for a valid, representable input the table has \<open>itemCount + 1\<close> rows of
  \<open>capacity + 1\<close> columns; row 0 and column 0, the base case, are all zero; every
  entry of an item row \<open>i\<close> from 1 and a column \<open>j\<close> from 1 obeys the recurrence; and
  the result is the entry at \<open>(itemCount, capacity)\<close>.
\<close>

theorem C4_recurrence:
  assumes "length values = length weights"
    and "\<forall>w\<in>set weights. 0 \<le> w"
    and "0 \<le> capacity"
    and "representable weights capacity"
  shows "\<exists>v table. array_f values = Inr v \<and> dp_table v weights capacity = Inr table \<and>
           length table = length weights + 1 \<and>
           (\<forall>i\<le>length weights. length (table ! i) = nat capacity + 1) \<and>
           (\<forall>j\<le>nat capacity. table ! 0 ! j = 0) \<and>
           (\<forall>i\<le>length weights. table ! i ! 0 = 0) \<and>
           (\<forall>i\<in>{1..length weights}. \<forall>j\<in>{1..nat capacity}.
              recurrence_at v weights table i j) \<and>
           knapsack values weights capacity = Inr (table ! length weights ! nat capacity)"
proof -
  let ?v = "map to_single values"
  let ?t = "table_of ?v weights (length weights) (nat capacity)"
  have len: "length weights \<le> length values" using assms(1) by simp
  have len': "length weights \<le> length ?v" using assms(1) by simp
  have "array_f values = Inr ?v" by (simp add: array_f_def)
  moreover have "dp_table ?v weights capacity = Inr ?t"
    using dp_table_eq[OF len' assms(2-4)] .
  moreover have "length ?t = length weights + 1"
    by (simp add: table_of_length)
  moreover have "\<forall>i\<le>length weights. length (?t ! i) = nat capacity + 1"
    by (simp add: table_of_length)
  moreover have "\<forall>j\<le>nat capacity. ?t ! 0 ! j = 0"
    by (simp add: table_of_nth)
  moreover have "\<forall>i\<le>length weights. ?t ! i ! 0 = 0"
    by (simp add: table_of_nth cell_col0)
  moreover have "\<forall>i\<in>{1..length weights}. \<forall>j\<in>{1..nat capacity}.
      recurrence_at ?v weights ?t i j"
    using table_of_recurrence by simp
  moreover have "knapsack values weights capacity = Inr (?t ! length weights ! nat capacity)"
    using knapsack_eq[OF len assms(2-4)] by (simp add: table_of_nth)
  ultimately show ?thesis by blast
qed

theorem C4_recurrence_witness:
  "\<exists>v table. array_f [1, 2, 3] = Inr v \<and> dp_table v [1, 1, 1] 2 = Inr table \<and>
     length table = 4 \<and> length (table ! 3) = 3 \<and>
     table ! 0 ! 2 = 0 \<and> table ! 3 ! 0 = 0 \<and>
     recurrence_at v [1, 1, 1] table 3 2 \<and>
     knapsack [1, 2, 3] [1, 1, 1] 2 = Inr (table ! 3 ! 2)"
proof -
  have h: "length [1, 2, 3 :: real] = length [1, 1, 1 :: int]"
    "\<forall>w\<in>set [1, 1, 1 :: int]. 0 \<le> w" "(0::int) \<le> 2" "representable [1, 1, 1] 2"
    by (simp_all add: representable_def)
  from C4_recurrence[OF h]
  obtain v table where t: "array_f [1, 2, 3] = Inr v" "dp_table v [1, 1, 1] 2 = Inr table"
    "length table = length [1, 1, 1 :: int] + 1"
    "\<forall>i\<le>length [1, 1, 1 :: int]. length (table ! i) = nat 2 + 1"
    "\<forall>j\<le>nat 2. table ! 0 ! j = 0"
    "\<forall>i\<le>length [1, 1, 1 :: int]. table ! i ! 0 = 0"
    "\<forall>i\<in>{1..length [1, 1, 1 :: int]}. \<forall>j\<in>{1..nat 2}. recurrence_at v [1, 1, 1] table i j"
    "knapsack [1, 2, 3] [1, 1, 1] 2 = Inr (table ! length [1, 1, 1 :: int] ! nat 2)"
    by blast
  have i: "3 \<in> {1..length [1, 1, 1 :: int]}" and j: "2 \<in> {1..nat 2}" by simp_all
  have "length table = 4" using t(3) by simp
  moreover have "length (table ! 3) = 3" using t(4) by simp
  moreover have "table ! 0 ! 2 = 0" using t(5) by simp
  moreover have "table ! 3 ! 0 = 0" using t(6) by simp
  moreover have "recurrence_at v [1, 1, 1] table 3 2"
    using bspec[OF bspec[OF t(7) i] j] .
  moreover have "knapsack [1, 2, 3] [1, 1, 1] 2 = Inr (table ! 3 ! 2)"
    using t(8) by (simp add: numeral_3_eq_3)
  ultimately show ?thesis using t(1,2) by blast
qed

subsection \<open>C5: monotone in the capacity\<close>

text \<open>
  C5: for fixed valid values and weights and capacities \<open>c1 \<le> c2\<close> (representable), both
  calls return and the result for \<open>c1\<close> is at most the result for \<open>c2\<close>.
\<close>

theorem C5_capacity_monotone:
  assumes "length values = length weights"
    and "\<forall>w\<in>set weights. 0 \<le> w"
    and "0 \<le> c1" "c1 \<le> c2"
    and "representable weights c2"
  shows "\<exists>r1 r2. knapsack values weights c1 = Inr r1 \<and>
                 knapsack values weights c2 = Inr r2 \<and> r1 \<le> r2"
proof -
  have len: "length weights \<le> length values" using assms(1) by simp
  have rep1: "representable weights c1"
    using assms(4,5) by (simp add: representable_def)
  have c2: "0 \<le> c2" using assms(3,4) by simp
  have "cell (map to_single values) weights (length weights) (nat c1)
          \<le> cell (map to_single values) weights (length weights) (nat c2)"
    using assms(4) by (intro cell_mono_col) simp
  then show ?thesis
    using knapsack_eq[OF len assms(2) assms(3) rep1] knapsack_eq[OF len assms(2) c2 assms(5)]
    by simp
qed

theorem C5_capacity_monotone_witness:
  "\<exists>r1 r2. knapsack [60, 100, 120] [10, 20, 30] 20 = Inr r1 \<and>
           knapsack [60, 100, 120] [10, 20, 30] 50 = Inr r2 \<and> r1 \<le> r2"
  using C5_capacity_monotone[of "[60, 100, 120]" "[10, 20, 30]" 20 50]
  by (simp add: representable_def)

subsection \<open>C6: zero capacity, no items\<close>

text \<open>
  C6: for valid values and weights the result at capacity 0 is 0, and for the empty
  item list the result is 0 at every non-negative capacity.
\<close>

theorem C6_zero_capacity_and_no_items:
  "(length values = length weights \<and> (\<forall>w\<in>set weights. 0 \<le> w) \<and> representable weights 0
      \<longrightarrow> knapsack values weights 0 = Inr 0) \<and>
   (0 \<le> capacity \<and> representable [] capacity \<longrightarrow> knapsack [] [] capacity = Inr 0)"
proof (intro conjI impI)
  assume a: "length values = length weights \<and> (\<forall>w\<in>set weights. 0 \<le> w) \<and> representable weights 0"
  then have "knapsack values weights 0
               = Inr (cell (map to_single values) weights (length weights) (nat 0))"
    by (intro knapsack_eq) simp_all
  then show "knapsack values weights 0 = Inr 0" by (simp add: cell_col0)
next
  assume a: "0 \<le> capacity \<and> representable [] capacity"
  then have "knapsack [] [] capacity
               = Inr (cell (map to_single []) [] (length ([]::int list)) (nat capacity))"
    by (intro knapsack_eq) simp_all
  then show "knapsack [] [] capacity = Inr 0" by simp
qed

theorem C6_zero_capacity_and_no_items_witness:
  "knapsack [60, 100, 120] [10, 20, 30] 0 = Inr 0 \<and> knapsack [] [] 50 = Inr 0"
  using C6_zero_capacity_and_no_items[of "[60, 100, 120]" "[10, 20, 30]" 50]
  by (simp add: representable_def)


subsection \<open>C7: the table is monotone\<close>

text \<open>
  C7: for a valid input every entry of the table the loops build is non-decreasing
  along its row (in \<open>j\<close>) and along its column (in \<open>i\<close>).
\<close>

theorem C7_table_monotone:
  assumes "length values = length weights"
    and "\<forall>w\<in>set weights. 0 \<le> w"
    and "0 \<le> capacity"
    and "representable weights capacity"
  shows "\<exists>v table. array_f values = Inr v \<and> dp_table v weights capacity = Inr table \<and>
           (\<forall>i\<le>length weights. \<forall>j'\<le>nat capacity. \<forall>j\<le>j'. table ! i ! j \<le> table ! i ! j') \<and>
           (\<forall>i'\<le>length weights. \<forall>j\<le>nat capacity. \<forall>i\<le>i'. table ! i ! j \<le> table ! i' ! j)"
proof -
  let ?v = "map to_single values"
  let ?t = "table_of ?v weights (length weights) (nat capacity)"
  have len': "length weights \<le> length ?v" using assms(1) by simp
  have "array_f values = Inr ?v" by (simp add: array_f_def)
  moreover have "dp_table ?v weights capacity = Inr ?t"
    using dp_table_eq[OF len' assms(2-4)] .
  moreover have "\<forall>i\<le>length weights. \<forall>j'\<le>nat capacity. \<forall>j\<le>j'. ?t ! i ! j \<le> ?t ! i ! j'"
    by (simp add: table_of_nth cell_mono_col)
  moreover have "\<forall>i'\<le>length weights. \<forall>j\<le>nat capacity. \<forall>i\<le>i'. ?t ! i ! j \<le> ?t ! i' ! j"
    by (simp add: table_of_nth cell_mono_rows)
  ultimately show ?thesis by blast
qed

theorem C7_table_monotone_witness:
  "\<exists>v table. array_f [1, 2, 3] = Inr v \<and> dp_table v [1, 1, 1] 2 = Inr table \<and>
     table ! 2 ! 1 \<le> table ! 2 ! 2 \<and> table ! 1 ! 2 \<le> table ! 3 ! 2"
proof -
  have h: "length [1, 2, 3 :: real] = length [1, 1, 1 :: int]"
    "\<forall>w\<in>set [1, 1, 1 :: int]. 0 \<le> w" "(0::int) \<le> 2" "representable [1, 1, 1] 2"
    by (simp_all add: representable_def)
  from C7_table_monotone[OF h]
  obtain v table where t: "array_f [1, 2, 3] = Inr v" "dp_table v [1, 1, 1] 2 = Inr table"
    "\<forall>i\<le>length [1, 1, 1 :: int]. \<forall>j'\<le>nat 2. \<forall>j\<le>j'. table ! i ! j \<le> table ! i ! j'"
    "\<forall>i'\<le>length [1, 1, 1 :: int]. \<forall>j\<le>nat 2. \<forall>i\<le>i'. table ! i ! j \<le> table ! i' ! j"
    by blast
  have "table ! 2 ! 1 \<le> table ! 2 ! 2" using t(3) by simp
  moreover have "table ! 1 ! 2 \<le> table ! 3 ! 2" using t(4) by simp
  ultimately show ?thesis using t(1,2) by blast
qed

subsection \<open>C8: the result is not negative\<close>

text \<open>
  C8: for equal-length sequences, non-negative weights and a non-negative capacity the
  call returns a value that is at least 0, whatever the signs of the item values.
\<close>

theorem C8_result_nonnegative:
  assumes "length values = length weights"
    and "\<forall>w\<in>set weights. 0 \<le> w"
    and "0 \<le> capacity"
    and "representable weights capacity"
  shows "\<exists>r. knapsack values weights capacity = Inr r \<and> 0 \<le> r"
proof -
  have len: "length weights \<le> length values" using assms(1) by simp
  show ?thesis
    using knapsack_eq[OF len assms(2-4)] cell_nonneg by simp
qed

theorem C8_result_nonnegative_witness:
  "\<exists>r. knapsack [- 4, 3, - 1] [1, 2, 1] 3 = Inr r \<and> 0 \<le> r"
  using C8_result_nonnegative[of "[- 4, 3, - 1]" "[1, 2, 1]" 3]
  by (simp add: representable_def)


subsection \<open>C9: surplus values\<close>

text \<open>
  C9 says that with more values than weights the call returns the optimum over the
  first \<open>len(weights)\<close> items. The surplus is indeed ignored
  (\<open>surplus_values_ignored\<close>), but the result is not always that optimum, for the
  reason of C1: with the values 5, 7, 99 and the weights 0, 1 at capacity 1 the first
  two items fit together for 12, and \<open>knapsack\<close> returns 7.
\<close>

theorem C9_zero_weight_item_lost:
  "knapsack [5, 7, 99] [0, 1] 1 = Inr (Finite 7) \<and>
   best_value (take (length [0, 1 :: int]) [5, 7, 99]) [0, 1] 1 = 12"
proof -
  have "knapsack [5, 7, 99] [0, 1] 1
          = Inr (cell (map to_single [5, 7, 99]) [0, 1] (length [0, 1 :: int]) (nat 1))"
    by (rule knapsack_eq) (simp_all add: representable_def)
  then have "knapsack [5, 7, 99] [0, 1] 1 = Inr (Finite 7)" by (simp add: fp_eval)
  moreover have "best_value (take (length [0, 1 :: int]) [5, 7, 99]) [0, 1] 1 = 12" by code_simp
  ultimately show ?thesis by simp
qed


subsection \<open>C10: indices stay in bounds\<close>

text \<open>
  C10: under the preconditions no access of the loops or of the final read raises
  \<open>IndexError\<close> (the table is built and the result is returned); at every row \<open>i\<close>
  and column \<open>j\<close> the loops visit, the indices \<open>i - 1\<close> into the weights and the
  values, \<open>i - 1\<close>, \<open>i\<close> and \<open>j\<close> into the table lie within the buffers, and
  whenever the inclusion branch is taken so does \<open>j - weight\<close>, which is between 0 and
  the capacity.
\<close>

theorem C10_indices_in_bounds:
  assumes "length values = length weights"
    and "\<forall>w\<in>set weights. 0 \<le> w"
    and "0 \<le> capacity"
    and "representable weights capacity"
  shows "(\<exists>v table r. array_f values = Inr v \<and> length v = length values \<and>
                      dp_table v weights capacity = Inr table \<and>
                      knapsack values weights capacity = Inr r) \<and>
         (\<forall>i\<in>{1..length weights}. \<forall>j\<in>{1..nat capacity}.
            in_bounds (length weights) (int i - 1) \<and>
            in_bounds (length values) (int i - 1) \<and>
            in_bounds (length weights + 1) (int i - 1) \<and>
            in_bounds (length weights + 1) (int i) \<and>
            in_bounds (nat capacity + 1) (int j) \<and>
            (0 \<le> c_int (int j - weights ! (i - 1)) \<longrightarrow>
               in_bounds (nat capacity + 1) (c_int (int j - weights ! (i - 1)))))"
proof -
  have len: "length weights \<le> length values" using assms(1) by simp
  have len': "length weights \<le> length (map to_single values)" using assms(1) by simp
  have a: "\<exists>v table r. array_f values = Inr v \<and> length v = length values \<and>
                      dp_table v weights capacity = Inr table \<and>
                      knapsack values weights capacity = Inr r"
    using dp_table_eq[OF len' assms(2-4)] knapsack_eq[OF len assms(2-4)]
    by (simp add: array_f_def)
  have b: "in_bounds (length weights) (int i - 1) \<and>
           in_bounds (length values) (int i - 1) \<and>
           in_bounds (length weights + 1) (int i - 1) \<and>
           in_bounds (length weights + 1) (int i) \<and>
           in_bounds (nat capacity + 1) (int j)"
    if "i \<in> {1..length weights}" "j \<in> {1..nat capacity}" for i j
    using that assms(1) by (auto simp: in_bounds_def)
  have c: "in_bounds (nat capacity + 1) (c_int (int j - weights ! (i - 1)))"
    if "i \<in> {1..length weights}" "j \<in> {1..nat capacity}"
      "0 \<le> c_int (int j - weights ! (i - 1))" for i j
  proof -
    have "weights ! (i - 1) \<in> set weights" using that(1) by (intro nth_mem) auto
    then have w: "0 \<le> weights ! (i - 1)" "weights ! (i - 1) < 2 ^ 31"
      using assms(2,4) by (auto simp: representable_def)
    have j: "1 \<le> int j" "int j \<le> capacity" using that(2) by auto
    have "capacity + 1 < 2 ^ 31" using assms(4) by (simp add: representable_def)
    then have "fits_c_int (int j - weights ! (i - 1))"
      using w j by (simp add: fits_c_int_def)
    then have "c_int (int j - weights ! (i - 1)) = int j - weights ! (i - 1)"
      by (rule c_int_id)
    then show ?thesis using that(3) w(1) j(2) assms(3) by (simp add: in_bounds_def)
  qed
  show ?thesis using a b c by blast
qed

theorem C10_indices_in_bounds_witness:
  "(\<exists>v table r. array_f [1, 2, 3] = Inr v \<and> length v = length [1, 2, 3 :: real] \<and>
                dp_table v [1, 1, 1] 2 = Inr table \<and>
                knapsack [1, 2, 3] [1, 1, 1] 2 = Inr r) \<and>
   in_bounds (length [1, 1, 1 :: int]) (int 3 - 1) \<and>
   in_bounds (nat 2 + 1) (int 2) \<and>
   in_bounds (nat 2 + 1) (c_int (int 2 - [1, 1, 1] ! (3 - 1)))"
proof -
  have h: "length [1, 2, 3 :: real] = length [1, 1, 1 :: int]"
    "\<forall>w\<in>set [1, 1, 1 :: int]. 0 \<le> w" "(0::int) \<le> 2" "representable [1, 1, 1] 2"
    by (simp_all add: representable_def)
  have i: "3 \<in> {1..length [1, 1, 1 :: int]}" and j: "2 \<in> {1..nat 2}" by simp_all
  have c: "0 \<le> c_int (int 2 - [1, 1, 1] ! (3 - 1))" by (simp add: c_int_def)
  from C10_indices_in_bounds[OF h]
  have ret: "\<exists>v table r. array_f [1, 2, 3] = Inr v \<and> length v = length [1, 2, 3 :: real] \<and>
                      dp_table v [1, 1, 1] 2 = Inr table \<and>
                      knapsack [1, 2, 3] [1, 1, 1] 2 = Inr r"
    and idx: "\<forall>i\<in>{1..length [1, 1, 1 :: int]}. \<forall>j\<in>{1..nat 2}.
            in_bounds (length [1, 1, 1 :: int]) (int i - 1) \<and>
            in_bounds (length [1, 2, 3 :: real]) (int i - 1) \<and>
            in_bounds (length [1, 1, 1 :: int] + 1) (int i - 1) \<and>
            in_bounds (length [1, 1, 1 :: int] + 1) (int i) \<and>
            in_bounds (nat 2 + 1) (int j) \<and>
            (0 \<le> c_int (int j - [1, 1, 1] ! (i - 1)) \<longrightarrow>
               in_bounds (nat 2 + 1) (c_int (int j - [1, 1, 1] ! (i - 1))))"
    by blast+
  from bspec[OF bspec[OF idx i] j] c ret show ?thesis by blast
qed


end
